theory Spec2Isabelle
  imports Main "HOL-Library.Word" "HOL-Library.Monad_Syntax"
begin

unbundle bit_operations_syntax

section \<open>C integers\<close>

text \<open>
  The C type \<open>int\<close> of \<open>rotate.c\<close> is modelled by \<open>int\<close>.  Division and remainder
  truncate towards zero, as C99 prescribes; HOL's \<open>div\<close> and \<open>mod\<close> round downwards and
  are therefore not used directly.  A signed multiplication whose mathematical result
  does not fit into 32 bits has no defined result in C; it is the value \<open>None\<close>.
\<close>

definition INT_MIN :: int where
  "INT_MIN = - (2 ^ 31)"

definition INT_MAX :: int where
  "INT_MAX = 2 ^ 31 - 1"

definition is_c_int :: "int \<Rightarrow> bool" where
  "is_c_int v = (INT_MIN \<le> v \<and> v \<le> INT_MAX)"

definition c_div :: "int \<Rightarrow> int \<Rightarrow> int" where
  "c_div a b = sgn a * sgn b * (\<bar>a\<bar> div \<bar>b\<bar>)"

definition c_mod :: "int \<Rightarrow> int \<Rightarrow> int" where
  "c_mod a b = a - c_div a b * b"

definition c_mul :: "int \<Rightarrow> int \<Rightarrow> int option" where
  "c_mul a b = (if is_c_int (a * b) then Some (a * b) else None)"

section \<open>The thread context\<close>

type_synonym byte = "8 word"

text \<open>
  Modelled from the spec: the palette constants \<open>VIDEO_PALETTE_GREY\<close> and
  \<open>VIDEO_PALETTE_YUV420P\<close> come from a video header that is not part of the sources.
  The spec names the two supported layouts (Greyscale, Planar420); every other value
  of \<open>imgs.type\<close> is \<open>VIDEO_PALETTE_OTHER\<close> with its number.
\<close>

datatype palette = VIDEO_PALETTE_GREY | VIDEO_PALETTE_YUV420P | VIDEO_PALETTE_OTHER int

text \<open>
  The fields of \<open>struct context\<close> that \<open>rotate.c\<close> reads or writes; the field
  \<open>cnt->imgs.width\<close> is \<open>imgs_width cnt\<close>, and so on.  The scratch buffer
  \<open>temp_buf\<close> is \<open>None\<close> for the NULL pointer and \<open>Some\<close> of its bytes otherwise.
\<close>

record struct_context =
  conf_rotate_deg :: int
  imgs_width :: int
  imgs_height :: int
  imgs_type :: palette
  rotate_data_degrees :: int
  rotate_data_cap_width :: int
  rotate_data_cap_height :: int
  rotate_data_temp_buf :: "byte list option"

text \<open>
  Modelled from the spec: \<open>mymalloc\<close> is defined outside \<open>rotate.c\<close>.  The spec's
  \<open>acquire(size)\<close> hands out an owned buffer of the requested size and leaves
  allocation failure out of scope.  A negative request cannot be satisfied (\<open>None\<close>).
  Fresh memory holds arbitrary bytes: they are the parameter \<open>junk\<close>.
\<close>

definition mymalloc :: "(nat \<Rightarrow> byte) \<Rightarrow> int \<Rightarrow> byte list option" where
  "mymalloc junk sz = (if sz < 0 then None else Some (map junk [0..<nat sz]))"

section \<open>Initialisation\<close>

text \<open>
  Lines 223 and 224 of \<open>rotate_init\<close>: the scratch buffer is requested only for a
  quarter turn.
\<close>

definition alloc_temp_buf :: "(nat \<Rightarrow> byte) \<Rightarrow> struct_context \<Rightarrow> int \<Rightarrow> struct_context option" where
  "alloc_temp_buf junk cnt sz =
    (if rotate_data_degrees cnt = 90 \<or> rotate_data_degrees cnt = 270
     then do {
       buf \<leftarrow> mymalloc junk sz;
       Some (cnt\<lparr>rotate_data_temp_buf := Some buf\<rparr>)
     }
     else Some cnt)"

text \<open>
  \<open>rotate_init\<close>, statement by statement.  The two \<open>MOTION_LOG\<close> calls only emit a
  warning and are left out.  The result is \<open>None\<close> where the computation of \<open>size\<close>
  overflows or the allocation cannot be satisfied.
\<close>

definition rotate_init :: "(nat \<Rightarrow> byte) \<Rightarrow> struct_context \<Rightarrow> struct_context option" where
  "rotate_init junk cnt0 =
    (let cnt1 = cnt0\<lparr>rotate_data_temp_buf := None\<rparr>;
         cnt2 = (if c_mod (conf_rotate_deg cnt1) 90 > 0
                 then cnt1\<lparr>conf_rotate_deg := 0, rotate_data_degrees := 0\<rparr>
                 else cnt1\<lparr>rotate_data_degrees := c_mod (conf_rotate_deg cnt1) 360\<rparr>);
         cnt3 = cnt2\<lparr>rotate_data_cap_width := imgs_width cnt2,
                     rotate_data_cap_height := imgs_height cnt2\<rparr>;
         cnt4 = (if rotate_data_degrees cnt3 = 90 \<or> rotate_data_degrees cnt3 = 270
                 then cnt3\<lparr>imgs_width := rotate_data_cap_height cnt3,
                           imgs_height := rotate_data_cap_width cnt3\<rparr>
                 else cnt3)
     in if rotate_data_degrees cnt4 = 0 then Some cnt4
        else (case imgs_type cnt4 of
            VIDEO_PALETTE_YUV420P \<Rightarrow> do {
              wh \<leftarrow> c_mul (imgs_width cnt4) (imgs_height cnt4);
              wh3 \<leftarrow> c_mul wh 3;
              alloc_temp_buf junk cnt4 (c_div wh3 2)
            }
          | VIDEO_PALETTE_GREY \<Rightarrow> do {
              wh \<leftarrow> c_mul (imgs_width cnt4) (imgs_height cnt4);
              alloc_temp_buf junk cnt4 wh
            }
          | VIDEO_PALETTE_OTHER n \<Rightarrow> Some (cnt4\<lparr>rotate_data_degrees := 0\<rparr>)))"

section \<open>Memory\<close>

text \<open>
  A buffer is the list of its bytes and a pointer into it is an offset.  Reading or
  writing outside the buffer has no defined result (\<open>None\<close>).  The frame buffer and
  the scratch buffer are two separate lists: the scratch buffer is a fresh allocation
  owned by the context, so the two never overlap.
\<close>

definition peek :: "byte list \<Rightarrow> int \<Rightarrow> byte option" where
  "peek m p = (if 0 \<le> p \<and> p < int (length m) then Some (m ! nat p) else None)"

definition poke :: "byte list \<Rightarrow> int \<Rightarrow> byte \<Rightarrow> byte list option" where
  "poke m p v = (if 0 \<le> p \<and> p < int (length m) then Some (m[nat p := v]) else None)"

text \<open>
  \<open>memcpy dst src n\<close> of the C library, on two separate buffers from their first
  bytes on.  The count is a \<open>size_t\<close>: a negative \<open>int\<close> becomes a count beyond
  any buffer.
\<close>

definition memcpy :: "byte list \<Rightarrow> byte list \<Rightarrow> int \<Rightarrow> byte list option" where
  "memcpy dst src n =
    (if 0 \<le> n \<and> n \<le> int (length dst) \<and> n \<le> int (length src)
     then Some (take (nat n) src @ drop (nat n) dst)
     else None)"

text \<open>
  A \<open>uint32_t\<close> in memory is four bytes in the byte order of the machine, which is
  a parameter of the model.
\<close>

datatype endian = Little | Big

fun word_of_bytes :: "endian \<Rightarrow> byte \<Rightarrow> byte \<Rightarrow> byte \<Rightarrow> byte \<Rightarrow> 32 word" where
  "word_of_bytes Little b0 b1 b2 b3 =
     ucast b0 OR push_bit 8 (ucast b1) OR push_bit 16 (ucast b2) OR push_bit 24 (ucast b3)"
| "word_of_bytes Big b0 b1 b2 b3 =
     ucast b3 OR push_bit 8 (ucast b2) OR push_bit 16 (ucast b1) OR push_bit 24 (ucast b0)"

fun bytes_of_word :: "endian \<Rightarrow> 32 word \<Rightarrow> byte list" where
  "bytes_of_word Little w =
     [ucast w, ucast (drop_bit 8 w), ucast (drop_bit 16 w), ucast (drop_bit 24 w)]"
| "bytes_of_word Big w =
     [ucast (drop_bit 24 w), ucast (drop_bit 16 w), ucast (drop_bit 8 w), ucast w]"

definition load32 :: "endian \<Rightarrow> byte list \<Rightarrow> int \<Rightarrow> 32 word option" where
  "load32 e m p = do {
     b0 \<leftarrow> peek m p;
     b1 \<leftarrow> peek m (p + 1);
     b2 \<leftarrow> peek m (p + 2);
     b3 \<leftarrow> peek m (p + 3);
     Some (word_of_bytes e b0 b1 b2 b3)
   }"

definition store32 :: "endian \<Rightarrow> byte list \<Rightarrow> int \<Rightarrow> 32 word \<Rightarrow> byte list option" where
  "store32 e m p w = do {
     m0 \<leftarrow> poke m p (bytes_of_word e w ! 0);
     m1 \<leftarrow> poke m0 (p + 1) (bytes_of_word e w ! 1);
     m2 \<leftarrow> poke m1 (p + 2) (bytes_of_word e w ! 2);
     poke m2 (p + 3) (bytes_of_word e w ! 3)
   }"

text \<open>
  Modelled from the spec: \<open>bswap_32\<close> is a macro of the system's \<open>byteswap.h\<close>, the
  spec's machine word-swap primitive.  It is written here as the usual mask-and-shift
  expression that exchanges byte 0 with byte 3 and byte 1 with byte 2.
\<close>

definition bswap_32 :: "32 word \<Rightarrow> 32 word" where
  "bswap_32 x =
     drop_bit 24 (x AND 0xff000000) OR drop_bit 8 (x AND 0x00ff0000) OR
     push_bit 8 (x AND 0x0000ff00) OR push_bit 24 (x AND 0x000000ff)"

section \<open>The transform engine\<close>

subsection \<open>Half turn\<close>

text \<open>
  The \<open>while\<close> loop of \<open>reverse_inplace_quad\<close>; \<open>nsrc\<close> and \<open>ndst\<close> are the byte
  offsets of the two quads.
\<close>

function reverse_inplace_quad_loop :: "endian \<Rightarrow> byte list \<Rightarrow> int \<Rightarrow> int \<Rightarrow> byte list option" where
  "reverse_inplace_quad_loop e m nsrc ndst =
    (if nsrc < ndst then do {
       last_quad \<leftarrow> load32 e m ndst;
       first_quad \<leftarrow> load32 e m nsrc;
       m1 \<leftarrow> store32 e m ndst (bswap_32 first_quad);
       m2 \<leftarrow> store32 e m1 nsrc (bswap_32 last_quad);
       reverse_inplace_quad_loop e m2 (nsrc + 4) (ndst - 4)
     }
     else Some m)"
  by pat_completeness auto
termination
  by (relation "measure (\<lambda>(e, m, nsrc, ndst). nat (ndst - nsrc))") auto

text \<open>\<open>reverse_inplace_quad (m + off, sz)\<close> on the buffer \<open>m\<close>.\<close>

definition reverse_inplace_quad :: "endian \<Rightarrow> byte list \<Rightarrow> int \<Rightarrow> int \<Rightarrow> byte list option" where
  "reverse_inplace_quad e m off sz = reverse_inplace_quad_loop e m off (off + sz - 4)"

subsection \<open>Quarter turn clockwise\<close>

text \<open>
  The inner \<open>for\<close> loop of \<open>rot90cw\<close>: \<open>s\<close> is the offset of the read pointer
  \<open>src\<close>, \<open>d\<close> that of the write pointer \<open>dst\<close>.  It returns the buffer written to
  and the write pointer, which the next round continues from.
\<close>

function rot90cw_inner ::
    "byte list \<Rightarrow> int \<Rightarrow> int \<Rightarrow> int \<Rightarrow> int \<Rightarrow> byte list \<Rightarrow> int \<Rightarrow> (byte list \<times> int) option" where
  "rot90cw_inner src width height j s dst d =
    (if j < height then do {
       v \<leftarrow> peek src s;
       dst1 \<leftarrow> poke dst d v;
       rot90cw_inner src width height (j + 1) (s - width) dst1 (d + 1)
     }
     else Some (dst, d))"
  by pat_completeness auto
termination
  by (relation "measure (\<lambda>(src, width, height, j, s, dst, d). nat (height - j))") auto

text \<open>The outer \<open>for\<close> loop of \<open>rot90cw\<close>, over \<open>base\<close>.\<close>

function rot90cw_outer ::
    "byte list \<Rightarrow> int \<Rightarrow> int \<Rightarrow> int \<Rightarrow> int \<Rightarrow> byte list \<Rightarrow> int \<Rightarrow> byte list option" where
  "rot90cw_outer src endp width height base dst d =
    (if base < endp then do {
       (dst1, d1) \<leftarrow> rot90cw_inner src width height 0 base dst d;
       rot90cw_outer src endp width height (base + 1) dst1 d1
     }
     else Some dst)"
  by pat_completeness auto
termination
  by (relation "measure (\<lambda>(src, endp, width, height, base, dst, d). nat (endp - base))") auto

text \<open>
  \<open>rot90cw (src + s0, dst + d0, sz, width, height)\<close>, reading the buffer \<open>src\<close> and
  writing the separate buffer \<open>dst\<close>.
\<close>

definition rot90cw ::
    "byte list \<Rightarrow> int \<Rightarrow> byte list \<Rightarrow> int \<Rightarrow> int \<Rightarrow> int \<Rightarrow> int \<Rightarrow> byte list option" where
  "rot90cw src s0 dst d0 sz width height =
    (let endp = s0 + sz
     in rot90cw_outer src endp width height (endp - width) dst d0)"

subsection \<open>Quarter turn counter-clockwise\<close>

function rot90ccw_inner ::
    "byte list \<Rightarrow> int \<Rightarrow> int \<Rightarrow> int \<Rightarrow> int \<Rightarrow> byte list \<Rightarrow> int \<Rightarrow> (byte list \<times> int) option" where
  "rot90ccw_inner src width height j s dst d =
    (if j < height then do {
       v \<leftarrow> peek src s;
       dst1 \<leftarrow> poke dst d v;
       rot90ccw_inner src width height (j + 1) (s - width) dst1 (d - 1)
     }
     else Some (dst, d))"
  by pat_completeness auto
termination
  by (relation "measure (\<lambda>(src, width, height, j, s, dst, d). nat (height - j))") auto

function rot90ccw_outer ::
    "byte list \<Rightarrow> int \<Rightarrow> int \<Rightarrow> int \<Rightarrow> int \<Rightarrow> byte list \<Rightarrow> int \<Rightarrow> byte list option" where
  "rot90ccw_outer src endp width height base dst d =
    (if base < endp then do {
       (dst1, d1) \<leftarrow> rot90ccw_inner src width height 0 base dst d;
       rot90ccw_outer src endp width height (base + 1) dst1 d1
     }
     else Some dst)"
  by pat_completeness auto
termination
  by (relation "measure (\<lambda>(src, endp, width, height, base, dst, d). nat (endp - base))") auto

text \<open>
  \<open>rot90ccw (src + s0, dst + d0, sz, width, height)\<close>: the same traversal of \<open>src\<close>,
  writing \<open>dst\<close> from its last byte downwards.
\<close>

definition rot90ccw ::
    "byte list \<Rightarrow> int \<Rightarrow> byte list \<Rightarrow> int \<Rightarrow> int \<Rightarrow> int \<Rightarrow> int \<Rightarrow> byte list option" where
  "rot90ccw src s0 dst d0 sz width height =
    (let endp = s0 + sz
     in rot90ccw_outer src endp width height (endp - width) dst (d0 + sz - 1))"

section \<open>The dispatcher\<close>

text \<open>
  \<open>rotate_map (cnt, map)\<close> returns its \<open>int\<close> result together with the context
  (whose scratch buffer it writes) and the frame buffer.  A NULL scratch buffer in a
  quarter turn has no defined result.
\<close>

definition rotate_map ::
    "endian \<Rightarrow> struct_context \<Rightarrow> byte list \<Rightarrow> (int \<times> struct_context \<times> byte list) option" where
  "rotate_map e cnt m =
    (let deg = rotate_data_degrees cnt;
         width = rotate_data_cap_width cnt;
         height = rotate_data_cap_height cnt
     in do {
       wh \<leftarrow> c_mul width height;
       (sz, wh4, w2, h2) \<leftarrow>
         (if imgs_type cnt = VIDEO_PALETTE_YUV420P
          then do {
            wh3 \<leftarrow> c_mul wh 3;
            Some (c_div wh3 2, c_div wh 4, c_div width 2, c_div height 2)
          }
          else Some (wh, 0, 0, 0));
       if deg = 90 then do {
         t0 \<leftarrow> rotate_data_temp_buf cnt;
         t1 \<leftarrow> rot90cw m 0 t0 0 wh width height;
         t2 \<leftarrow> (if imgs_type cnt = VIDEO_PALETTE_YUV420P
                then do {
                  tu \<leftarrow> rot90cw m wh t1 wh wh4 w2 h2;
                  rot90cw m (wh + wh4) tu (wh + wh4) wh4 w2 h2
                }
                else Some t1);
         m1 \<leftarrow> memcpy m t2 sz;
         Some (0, cnt\<lparr>rotate_data_temp_buf := Some t2\<rparr>, m1)
       }
       else if deg = 180 then do {
         m1 \<leftarrow> reverse_inplace_quad e m 0 wh;
         m2 \<leftarrow> (if imgs_type cnt = VIDEO_PALETTE_YUV420P
                then do {
                  mu \<leftarrow> reverse_inplace_quad e m1 wh wh4;
                  reverse_inplace_quad e mu (wh + wh4) wh4
                }
                else Some m1);
         Some (0, cnt, m2)
       }
       else if deg = 270 then do {
         t0 \<leftarrow> rotate_data_temp_buf cnt;
         t1 \<leftarrow> rot90ccw m 0 t0 0 wh width height;
         t2 \<leftarrow> (if imgs_type cnt = VIDEO_PALETTE_YUV420P
                then do {
                  tu \<leftarrow> rot90ccw m wh t1 wh wh4 w2 h2;
                  rot90ccw m (wh + wh4) tu (wh + wh4) wh4 w2 h2
                }
                else Some t1);
         m1 \<leftarrow> memcpy m t2 sz;
         Some (0, cnt\<lparr>rotate_data_temp_buf := Some t2\<rparr>, m1)
       }
       else Some (- 1, cnt, m)
     })"

section \<open>Auxiliary notions\<close>

text \<open>
  The loop equations are unfolded by hand in the proofs below, one round at a time.
\<close>

declare reverse_inplace_quad_loop.simps [simp del]
declare rot90cw_inner.simps [simp del]
declare rot90cw_outer.simps [simp del]
declare rot90ccw_inner.simps [simp del]
declare rot90ccw_outer.simps [simp del]

text \<open>
  The bytes that the loop of \<open>reverse_inplace_quad\<close> exchanges when it starts with the
  first quad at \<open>nsrc\<close> and the last quad at \<open>ndst\<close>: all bytes of the extent, except
  those of a quad in the very middle, which exists when the number of quads is odd
  and which the loop never reaches.
\<close>

definition swapped :: "int \<Rightarrow> int \<Rightarrow> int \<Rightarrow> bool" where
  "swapped nsrc ndst i =
    (nsrc \<le> i \<and> i < ndst + 4 \<and>
     \<not> ((ndst - nsrc) mod 8 = 0 \<and> nsrc + ndst \<le> 2 * i \<and> 2 * i \<le> nsrc + ndst + 6))"

section \<open>Example inputs\<close>

text \<open>
  A context as the caller hands it to \<open>rotate_init\<close>: a 32 by 16 capture with the
  configured angle \<open>deg\<close> and the palette \<open>ty\<close>.
\<close>

definition example_cnt :: "int \<Rightarrow> palette \<Rightarrow> struct_context" where
  "example_cnt deg ty =
    \<lparr>conf_rotate_deg = deg, imgs_width = 32, imgs_height = 16, imgs_type = ty,
     rotate_data_degrees = 0, rotate_data_cap_width = 0, rotate_data_cap_height = 0,
     rotate_data_temp_buf = None\<rparr>"

text \<open>
  A context as \<open>rotate_map\<close> may find it: stored angle \<open>deg\<close>, capture size \<open>w\<close> by
  \<open>h\<close>, scratch buffer \<open>tmp\<close>.
\<close>

definition example_state ::
    "int \<Rightarrow> palette \<Rightarrow> int \<Rightarrow> int \<Rightarrow> byte list option \<Rightarrow> struct_context" where
  "example_state deg ty w h tmp =
    \<lparr>conf_rotate_deg = deg, imgs_width = w, imgs_height = h, imgs_type = ty,
     rotate_data_degrees = deg, rotate_data_cap_width = w, rotate_data_cap_height = h,
     rotate_data_temp_buf = tmp\<rparr>"

section \<open>Arithmetic facts\<close>

lemmas c_arith_defs = c_mod_def c_div_def c_mul_def is_c_int_def INT_MIN_def INT_MAX_def

lemma c_div_nonneg: "0 \<le> a \<Longrightarrow> 0 < b \<Longrightarrow> c_div a b = a div b"
  by (cases "a = 0") (simp_all add: c_div_def)

lemma c_mul_Some: "c_mul a b = Some p \<Longrightarrow> p = a * b \<and> is_c_int (a * b)"
  by (simp add: c_mul_def split: if_splits)

section \<open>Initialisation: the stored angle\<close>

text \<open>
  For a request that is not negative the stored angle is what the comment in line 166
  announces: a non-multiple of 90 is replaced by 0, a multiple of 90 is reduced into
  the range from 0 to 359.
\<close>

lemma c_mod_nonneg: "0 \<le> a \<Longrightarrow> 0 < b \<Longrightarrow> c_mod a b = a mod b"
  by (simp add: c_mod_def c_div_nonneg minus_div_mult_eq_mod)

lemma stored_angle_nonneg_request:
  assumes "0 \<le> r"
  shows "(if c_mod r 90 > 0 then 0 else c_mod r 360) \<in> {0, 90, 180, 270}"
proof (cases "c_mod r 90 > 0")
  case True
  then show ?thesis by simp
next
  case False
  with assms have "r mod 90 = 0" using c_mod_nonneg [of r 90] by simp
  then obtain k where "r = 90 * k" by auto
  moreover have "(90 * k) mod 360 = 90 * (k mod 4)"
    using mult_mod_right [of 90 k 4] by simp
  moreover have "k mod 4 \<in> {0, 1, 2, 3}"
  proof -
    have "0 \<le> k mod 4" "k mod 4 < 4" by simp_all
    then show ?thesis by auto
  qed
  ultimately have "r mod 360 \<in> {0, 90, 180, 270}" by auto
  with assms False show ?thesis using c_mod_nonneg [of r 360] by simp
qed

text \<open>
  C2: initialisation with the requested angle \<open>90 * k\<close> stores the same angle as
  initialisation with \<open>(90 * k) mod 360\<close>, always one of 0, 90, 180, 270.  The code
  does not do this for \<open>k = - 1\<close>: C's \<open>%\<close> keeps the sign of the dividend, so the
  request \<open>- 90\<close> is stored as \<open>- 90\<close>, while the request \<open>270\<close> is stored as 270.
\<close>

theorem rotate_init_minus_90:
  "map_option rotate_data_degrees (rotate_init junk (example_cnt (- 90) VIDEO_PALETTE_GREY))
     = Some (- 90)
   \<and> map_option rotate_data_degrees
       (rotate_init junk (example_cnt ((- 90) mod 360) VIDEO_PALETTE_GREY))
     = Some 270"
  by (simp add: rotate_init_def example_cnt_def c_arith_defs alloc_temp_buf_def
      mymalloc_def Let_def)

text \<open>
  C3: a requested angle that is not a multiple of 90, positive or negative, disables
  rotation: the stored angle is 0 and there is no scratch buffer.  The code misses
  the negative requests: for \<open>- 45\<close> the test \<open>rotate_deg % 90 > 0\<close> of line 160 is
  false (the remainder is \<open>- 45\<close>), and \<open>- 45\<close> is stored.
\<close>

theorem rotate_init_minus_45:
  "c_mod (- 45) 90 = - 45
   \<and> map_option (\<lambda>c. (conf_rotate_deg c, rotate_data_degrees c, rotate_data_temp_buf c))
       (rotate_init junk (example_cnt (- 45) VIDEO_PALETTE_GREY))
     = Some (- 45, - 45, None)"
  by (simp add: rotate_init_def example_cnt_def c_arith_defs alloc_temp_buf_def
      mymalloc_def Let_def)

section \<open>Initialisation: the scratch buffer\<close>

lemma length_mymalloc: "mymalloc junk sz = Some buf \<Longrightarrow> int (length buf) = sz"
  by (auto simp add: mymalloc_def split: if_splits)

lemma alloc_temp_buf_Some:
  assumes "alloc_temp_buf junk cnt sz = Some cnt'"
  shows "(rotate_data_degrees cnt \<in> {90, 270} \<longrightarrow>
            (\<exists>buf. mymalloc junk sz = Some buf \<and> cnt' = cnt\<lparr>rotate_data_temp_buf := Some buf\<rparr>))
       \<and> (rotate_data_degrees cnt \<notin> {90, 270} \<longrightarrow> cnt' = cnt)"
  using assms by (auto simp add: alloc_temp_buf_def split: bind_splits if_splits)

text \<open>The context when \<open>rotate_init\<close> reaches line 194, written as one record update.\<close>

lemma rotate_init_eq:
  "rotate_init junk cnt =
    (let d = (if c_mod (conf_rotate_deg cnt) 90 > 0 then 0
              else c_mod (conf_rotate_deg cnt) 360);
         turn = (d = 90 \<or> d = 270);
         cnt4 = cnt\<lparr>conf_rotate_deg :=
                      (if c_mod (conf_rotate_deg cnt) 90 > 0 then 0 else conf_rotate_deg cnt),
                    imgs_width := (if turn then imgs_height cnt else imgs_width cnt),
                    imgs_height := (if turn then imgs_width cnt else imgs_height cnt),
                    rotate_data_degrees := d,
                    rotate_data_cap_width := imgs_width cnt,
                    rotate_data_cap_height := imgs_height cnt,
                    rotate_data_temp_buf := None\<rparr>
     in if d = 0 then Some cnt4
        else (case imgs_type cnt of
            VIDEO_PALETTE_YUV420P \<Rightarrow> do {
              wh \<leftarrow> c_mul (imgs_width cnt4) (imgs_height cnt4);
              wh3 \<leftarrow> c_mul wh 3;
              alloc_temp_buf junk cnt4 (c_div wh3 2)
            }
          | VIDEO_PALETTE_GREY \<Rightarrow> do {
              wh \<leftarrow> c_mul (imgs_width cnt4) (imgs_height cnt4);
              alloc_temp_buf junk cnt4 wh
            }
          | VIDEO_PALETTE_OTHER n \<Rightarrow> Some (cnt4\<lparr>rotate_data_degrees := 0\<rparr>)))"
  by (cases cnt; cases "c_mod (conf_rotate_deg cnt) 90 > 0")
     (simp_all add: rotate_init_def Let_def split: palette.split)

text \<open>
  C9: after \<open>rotate_init\<close> a scratch buffer exists if and only if the stored angle is
  90 or 270 and the palette is one of the two supported ones.  When it exists it has
  \<open>width * height\<close> bytes for greyscale and \<open>width * height * 3 / 2\<close> bytes for planar
  4:2:0, in the output dimensions, which are the capture dimensions exchanged.  For
  the angles 0 and 180, and for every unsupported palette, there is none.
\<close>

theorem rotate_init_scratch_buffer:
  assumes "rotate_init junk cnt = Some cnt'"
  shows "((rotate_data_temp_buf cnt' \<noteq> None) =
            (rotate_data_degrees cnt' \<in> {90, 270} \<and>
             imgs_type cnt' \<in> {VIDEO_PALETTE_GREY, VIDEO_PALETTE_YUV420P}))
       \<and> (\<forall>buf. rotate_data_temp_buf cnt' = Some buf \<longrightarrow>
            (imgs_type cnt' = VIDEO_PALETTE_GREY \<longrightarrow>
               int (length buf) = imgs_width cnt' * imgs_height cnt') \<and>
            (imgs_type cnt' = VIDEO_PALETTE_YUV420P \<longrightarrow>
               int (length buf) = c_div (imgs_width cnt' * imgs_height cnt' * 3) 2) \<and>
            imgs_width cnt' = imgs_height cnt \<and> imgs_height cnt' = imgs_width cnt)
       \<and> (rotate_data_degrees cnt' \<in> {0, 180} \<longrightarrow> rotate_data_temp_buf cnt' = None)
       \<and> (imgs_type cnt' \<notin> {VIDEO_PALETTE_GREY, VIDEO_PALETTE_YUV420P} \<longrightarrow>
            rotate_data_temp_buf cnt' = None)"
proof -
  define d where
    "d = (if c_mod (conf_rotate_deg cnt) 90 > 0 then 0 else c_mod (conf_rotate_deg cnt) 360)"
  define cnt4 where
    "cnt4 = cnt\<lparr>conf_rotate_deg :=
                   (if c_mod (conf_rotate_deg cnt) 90 > 0 then 0 else conf_rotate_deg cnt),
                 imgs_width := (if d = 90 \<or> d = 270 then imgs_height cnt else imgs_width cnt),
                 imgs_height := (if d = 90 \<or> d = 270 then imgs_width cnt else imgs_height cnt),
                 rotate_data_degrees := d,
                 rotate_data_cap_width := imgs_width cnt,
                 rotate_data_cap_height := imgs_height cnt,
                 rotate_data_temp_buf := None\<rparr>"
  have c4: "rotate_data_degrees cnt4 = d" "rotate_data_temp_buf cnt4 = None"
    "imgs_type cnt4 = imgs_type cnt"
    "d = 90 \<or> d = 270 \<Longrightarrow> imgs_width cnt4 = imgs_height cnt \<and> imgs_height cnt4 = imgs_width cnt"
    by (simp_all add: cnt4_def)
  have eq: "rotate_init junk cnt =
      (if d = 0 then Some cnt4
       else (case imgs_type cnt of
            VIDEO_PALETTE_YUV420P \<Rightarrow> do {
              wh \<leftarrow> c_mul (imgs_width cnt4) (imgs_height cnt4);
              wh3 \<leftarrow> c_mul wh 3;
              alloc_temp_buf junk cnt4 (c_div wh3 2)
            }
          | VIDEO_PALETTE_GREY \<Rightarrow> do {
              wh \<leftarrow> c_mul (imgs_width cnt4) (imgs_height cnt4);
              alloc_temp_buf junk cnt4 wh
            }
          | VIDEO_PALETTE_OTHER n \<Rightarrow> Some (cnt4\<lparr>rotate_data_degrees := 0\<rparr>)))"
    unfolding rotate_init_eq d_def cnt4_def Let_def by (rule refl)
  show ?thesis
  proof (cases "d = 0")
    case True
    with assms eq have "cnt' = cnt4" by simp
    with True c4 show ?thesis by simp
  next
    case nz: False
    show ?thesis
    proof (cases "imgs_type cnt")
      case (VIDEO_PALETTE_OTHER n)
      with assms eq nz have "cnt' = cnt4\<lparr>rotate_data_degrees := 0\<rparr>" by simp
      with c4 VIDEO_PALETTE_OTHER show ?thesis by simp
    next
      case VIDEO_PALETTE_GREY
      with assms eq nz obtain wh where
        wh: "c_mul (imgs_width cnt4) (imgs_height cnt4) = Some wh"
        and al: "alloc_temp_buf junk cnt4 wh = Some cnt'"
        by (auto split: bind_splits)
      from c_mul_Some [OF wh] have whv: "wh = imgs_width cnt4 * imgs_height cnt4"
        by simp
      show ?thesis
      proof (cases "d = 90 \<or> d = 270")
        case True
        with alloc_temp_buf_Some [OF al] c4 obtain buf where
          "mymalloc junk wh = Some buf" "cnt' = cnt4\<lparr>rotate_data_temp_buf := Some buf\<rparr>"
          by auto
        with True c4 whv VIDEO_PALETTE_GREY length_mymalloc [of junk wh buf] show ?thesis
          by auto
      next
        case False
        with alloc_temp_buf_Some [OF al] c4 have "cnt' = cnt4" by simp
        with False c4 show ?thesis by auto
      qed
    next
      case VIDEO_PALETTE_YUV420P
      with assms eq nz obtain wh wh3 where
        wh: "c_mul (imgs_width cnt4) (imgs_height cnt4) = Some wh"
        and wh3: "c_mul wh 3 = Some wh3"
        and al: "alloc_temp_buf junk cnt4 (c_div wh3 2) = Some cnt'"
        by (auto split: bind_splits)
      from c_mul_Some [OF wh] c_mul_Some [OF wh3]
      have whv: "wh3 = imgs_width cnt4 * imgs_height cnt4 * 3"
        by simp
      show ?thesis
      proof (cases "d = 90 \<or> d = 270")
        case True
        with alloc_temp_buf_Some [OF al] c4 obtain buf where
          "mymalloc junk (c_div wh3 2) = Some buf"
          "cnt' = cnt4\<lparr>rotate_data_temp_buf := Some buf\<rparr>"
          by auto
        with True c4 whv VIDEO_PALETTE_YUV420P length_mymalloc [of junk "c_div wh3 2" buf]
        show ?thesis by auto
      next
        case False
        with alloc_temp_buf_Some [OF al] c4 have "cnt' = cnt4" by simp
        with False c4 show ?thesis by auto
      qed
    qed
  qed
qed

theorem rotate_init_scratch_buffer_witness:
  "rotate_init (\<lambda>i. 0) (example_cnt 90 VIDEO_PALETTE_GREY) =
     Some \<lparr>conf_rotate_deg = 90, imgs_width = 16, imgs_height = 32,
           imgs_type = VIDEO_PALETTE_GREY, rotate_data_degrees = 90,
           rotate_data_cap_width = 32, rotate_data_cap_height = 16,
           rotate_data_temp_buf = Some (replicate 512 0)\<rparr>
   \<and> int (length (replicate 512 (0 :: byte))) = 16 * 32
   \<and> imgs_height (example_cnt 90 VIDEO_PALETTE_GREY) = 16
   \<and> imgs_width (example_cnt 90 VIDEO_PALETTE_GREY) = 32"
proof -
  have h: "rotate_init (\<lambda>i. 0) (example_cnt 90 VIDEO_PALETTE_GREY) =
     Some \<lparr>conf_rotate_deg = 90, imgs_width = 16, imgs_height = 32,
           imgs_type = VIDEO_PALETTE_GREY, rotate_data_degrees = 90,
           rotate_data_cap_width = 32, rotate_data_cap_height = 16,
           rotate_data_temp_buf = Some (replicate 512 0)\<rparr>"
    by (simp add: rotate_init_def example_cnt_def c_arith_defs alloc_temp_buf_def
        mymalloc_def Let_def map_replicate_const)
  from rotate_init_scratch_buffer [OF h] h show ?thesis by simp
qed

text \<open>
  \<open>rotate_init\<close> has a result whenever the frame is not degenerate and the size of a
  planar frame fits into an \<open>int\<close>.
\<close>

lemma rotate_init_returns:
  assumes "0 \<le> imgs_width cnt" and "0 \<le> imgs_height cnt"
    and "imgs_width cnt * imgs_height cnt * 3 \<le> INT_MAX"
  shows "\<exists>cnt'. rotate_init junk cnt = Some cnt'"
proof -
  define p where "p = imgs_width cnt * imgs_height cnt"
  have p: "0 \<le> p" "p * 3 \<le> INT_MAX" "imgs_height cnt * imgs_width cnt = p"
    using assms by (simp_all add: p_def mult.commute)
  then have r: "is_c_int p" "is_c_int (p * 3)" "0 \<le> c_div (p * 3) 2"
    by (simp_all add: is_c_int_def INT_MIN_def INT_MAX_def c_div_nonneg)
  show ?thesis
    unfolding rotate_init_eq Let_def
    by (cases "imgs_type cnt")
       (use p r in \<open>simp_all add: c_mul_def alloc_temp_buf_def mymalloc_def p_def [symmetric]\<close>)
qed

text \<open>
  What lines 160 to 167 do achieve: a request with a positive remainder modulo 90
  disables rotation, and every request that is not negative leads to a stored angle
  among 0, 90, 180 and 270.
\<close>

lemma rotate_init_positive_non_multiple:
  assumes "0 < c_mod (conf_rotate_deg cnt) 90"
  shows "rotate_init junk cnt =
    Some (cnt\<lparr>conf_rotate_deg := 0, rotate_data_degrees := 0,
              rotate_data_cap_width := imgs_width cnt,
              rotate_data_cap_height := imgs_height cnt,
              rotate_data_temp_buf := None\<rparr>)"
  using assms by (cases cnt) (simp add: rotate_init_def Let_def)

lemma alloc_temp_buf_degrees:
  "alloc_temp_buf junk cnt sz = Some cnt' \<Longrightarrow> rotate_data_degrees cnt' = rotate_data_degrees cnt"
  by (auto simp add: alloc_temp_buf_def split: if_splits bind_splits)

lemma rotate_init_stored_angle:
  assumes "rotate_init junk cnt = Some cnt'"
  shows "rotate_data_degrees cnt' = 0 \<or>
         rotate_data_degrees cnt' =
           (if 0 < c_mod (conf_rotate_deg cnt) 90 then 0 else c_mod (conf_rotate_deg cnt) 360)"
proof (cases "imgs_type cnt")
  case VIDEO_PALETTE_GREY
  with assms show ?thesis
    unfolding rotate_init_eq Let_def
    by (cases "(if 0 < c_mod (conf_rotate_deg cnt) 90 then 0 else c_mod (conf_rotate_deg cnt) 360) = 0")
       (auto split: bind_splits dest!: alloc_temp_buf_degrees)
next
  case VIDEO_PALETTE_YUV420P
  with assms show ?thesis
    unfolding rotate_init_eq Let_def
    by (cases "(if 0 < c_mod (conf_rotate_deg cnt) 90 then 0 else c_mod (conf_rotate_deg cnt) 360) = 0")
       (auto split: bind_splits dest!: alloc_temp_buf_degrees)
next
  case (VIDEO_PALETTE_OTHER n)
  with assms show ?thesis
    unfolding rotate_init_eq Let_def
    by (cases "(if 0 < c_mod (conf_rotate_deg cnt) 90 then 0 else c_mod (conf_rotate_deg cnt) 360) = 0")
       auto
qed

lemma rotate_init_nonneg_request:
  assumes "0 \<le> conf_rotate_deg cnt" and "rotate_init junk cnt = Some cnt'"
  shows "rotate_data_degrees cnt' \<in> {0, 90, 180, 270}"
  using rotate_init_stored_angle [OF assms(2)] stored_angle_nonneg_request [OF assms(1)]
  by auto

section \<open>Memory: reading and writing inside a buffer\<close>

lemma masks: "(0xff :: 32 word) = mask 8" "(0xff00 :: 32 word) = push_bit 8 (mask 8)"
  "(0xff0000 :: 32 word) = push_bit 16 (mask 8)" "(0xff000000 :: 32 word) = push_bit 24 (mask 8)"
  by (simp_all add: mask_eq_exp_minus_1 push_bit_eq_mult)

lemma bytes_of_bswap_32: "bytes_of_word e (bswap_32 (word_of_bytes e a b c d)) = [d, c, b, a]"
proof (cases e)
  case Little
  show ?thesis unfolding Little
    apply (simp_all add: bswap_32_def masks)
    apply (intro conjI; rule bit_word_eqI; auto simp add: bit_simps dest: bit_imp_le_length)
    done
next
  case Big
  show ?thesis unfolding Big
    apply (simp_all add: bswap_32_def masks)
    apply (intro conjI; rule bit_word_eqI; auto simp add: bit_simps dest: bit_imp_le_length)
    done
qed

lemma peek_Some: "0 \<le> p \<Longrightarrow> p < int (length m) \<Longrightarrow> peek m p = Some (m ! nat p)"
  by (simp add: peek_def)

lemma poke_Some: "0 \<le> p \<Longrightarrow> p < int (length m) \<Longrightarrow> poke m p v = Some (m[nat p := v])"
  by (simp add: poke_def)

lemma load32_Some:
  assumes "0 \<le> p" "p + 4 \<le> int (length m)"
  shows "load32 e m p =
    Some (word_of_bytes e (m ! nat p) (m ! (nat p + 1)) (m ! (nat p + 2)) (m ! (nat p + 3)))"
  using assms by (simp add: load32_def peek_Some nat_add_distrib)

lemma store32_Some:
  assumes "0 \<le> p" "p + 4 \<le> int (length m)" "bytes_of_word e w = [x0, x1, x2, x3]"
  shows "store32 e m p w =
    Some (m[nat p := x0, nat p + 1 := x1, nat p + 2 := x2, nat p + 3 := x3])"
  using assms by (simp add: store32_def poke_Some nat_add_distrib)

text \<open>
  Storing the byte-swapped word that was loaded from the bytes \<open>a, b, c, d\<close> writes
  \<open>d, c, b, a\<close>, in either byte order: this is \<open>bytes_of_bswap_32\<close>.  One round of
  the loop therefore exchanges two disjoint quads and reverses the bytes of each.
\<close>

lemma quad_swap_step:
  assumes "0 \<le> nsrc" "nsrc + 4 \<le> ndst" "ndst + 4 \<le> int (length m)"
  shows "\<exists>last_quad first_quad m1 m2.
     load32 e m ndst = Some last_quad \<and> load32 e m nsrc = Some first_quad \<and>
     store32 e m ndst (bswap_32 first_quad) = Some m1 \<and>
     store32 e m1 nsrc (bswap_32 last_quad) = Some m2 \<and> length m2 = length m \<and>
     (\<forall>i. 0 \<le> i \<and> i < int (length m) \<longrightarrow> m2 ! nat i =
        (if (nsrc \<le> i \<and> i < nsrc + 4) \<or> (ndst \<le> i \<and> i < ndst + 4)
         then m ! nat (nsrc + ndst + 3 - i) else m ! nat i))"
proof -
  define a where "a = nat nsrc"
  define b where "b = nat ndst"
  have ab: "nsrc = int a" "ndst = int b" "a + 4 \<le> b" "b + 4 \<le> length m"
    using assms by (simp_all add: a_def b_def)
  let ?m1 = "m[b := m ! (a + 3), b + 1 := m ! (a + 2), b + 2 := m ! (a + 1), b + 3 := m ! a]"
  let ?m2 = "?m1[a := m ! (b + 3), a + 1 := m ! (b + 2), a + 2 := m ! (b + 1), a + 3 := m ! b]"
  have l1: "load32 e m ndst = Some (word_of_bytes e (m ! b) (m ! (b + 1)) (m ! (b + 2)) (m ! (b + 3)))"
    using ab by (simp add: load32_Some)
  have l2: "load32 e m nsrc = Some (word_of_bytes e (m ! a) (m ! (a + 1)) (m ! (a + 2)) (m ! (a + 3)))"
    using ab by (simp add: load32_Some)
  have s1: "store32 e m ndst (bswap_32 (word_of_bytes e (m ! a) (m ! (a + 1)) (m ! (a + 2)) (m ! (a + 3)))) = Some ?m1"
    using ab by (simp add: store32_Some [OF _ _ bytes_of_bswap_32])
  have s2: "store32 e ?m1 nsrc (bswap_32 (word_of_bytes e (m ! b) (m ! (b + 1)) (m ! (b + 2)) (m ! (b + 3)))) = Some ?m2"
    using ab by (simp add: store32_Some [OF _ _ bytes_of_bswap_32])
  have nthk: "?m2 ! k = (if (a \<le> k \<and> k < a + 4) \<or> (b \<le> k \<and> k < b + 4)
         then m ! (a + b + 3 - k) else m ! k)" if "k < length m" for k
  proof -
    consider "k = a" | "k = a + 1" | "k = a + 2" | "k = a + 3"
      | "k = b" | "k = b + 1" | "k = b + 2" | "k = b + 3"
      | "k < a \<or> (a + 4 \<le> k \<and> k < b) \<or> b + 4 \<le> k" by linarith
    then show ?thesis
      using ab that by cases (auto simp add: nth_list_update)
  qed
  have nth: "?m2 ! nat i = (if (nsrc \<le> i \<and> i < nsrc + 4) \<or> (ndst \<le> i \<and> i < ndst + 4)
         then m ! nat (nsrc + ndst + 3 - i) else m ! nat i)" if "0 \<le> i" "i < int (length m)" for i
  proof -
    have "nat i < length m" using that by simp
    moreover have "nat (nsrc + ndst + 3 - i) = a + b + 3 - nat i"
      using that ab by simp
    moreover have "(nsrc \<le> i) = (a \<le> nat i)" "(i < nsrc + 4) = (nat i < a + 4)"
      "(ndst \<le> i) = (b \<le> nat i)" "(i < ndst + 4) = (nat i < b + 4)"
      using that ab by auto
    ultimately show ?thesis using nthk [of "nat i"] by simp
  qed
  have len: "length ?m2 = length m" by simp
  from l1 l2 s1 s2 len nth show ?thesis by blast
qed


section \<open>Half turn\<close>

lemma mod_8_step: "(ndst - 4 - (nsrc + 4)) mod 8 = (ndst - nsrc) mod (8 :: int)"
proof -
  have "ndst - 4 - (nsrc + 4) = (ndst - nsrc) - 8" by simp
  then show ?thesis by (simp only: minus_mod_self2)
qed

lemma mod_4_step: "(ndst - 4 - (nsrc + 4)) mod 4 = (ndst - nsrc) mod (4 :: int)"
proof -
  have "ndst - 4 - (nsrc + 4) = (ndst - nsrc) - 4 - 4" by simp
  then show ?thesis by (simp only: minus_mod_self2)
qed

lemma mod_8_small: "(0 :: int) < d \<Longrightarrow> d < 8 \<Longrightarrow> d mod 8 \<noteq> 0"
  by simp

lemma mod_4_gap: "(d :: int) mod 4 = 0 \<Longrightarrow> 0 < d \<Longrightarrow> 4 \<le> d"
  by (cases "d < 4") auto

lemma mod_4_neg_gap: "(d :: int) mod 4 = 0 \<Longrightarrow> d < 0 \<Longrightarrow> d \<le> - 4"
proof -
  assume a: "d mod 4 = 0" "d < 0"
  then have "(- d) mod 4 = 0" by (simp add: mod_minus_eq dvd_eq_mod_eq_0 [symmetric])
  with a mod_4_gap [of "- d"] show ?thesis by simp
qed

lemma swapped_outer:
  assumes "nsrc + 4 \<le> ndst" "(nsrc \<le> i \<and> i < nsrc + 4) \<or> (ndst \<le> i \<and> i < ndst + 4)"
  shows "swapped nsrc ndst i" "\<not> swapped (nsrc + 4) (ndst - 4) i"
proof -
  have "\<not> ((ndst - nsrc) mod 8 = 0 \<and> nsrc + ndst \<le> 2 * i \<and> 2 * i \<le> nsrc + ndst + 6)"
  proof
    assume h: "(ndst - nsrc) mod 8 = 0 \<and> nsrc + ndst \<le> 2 * i \<and> 2 * i \<le> nsrc + ndst + 6"
    with assms have "0 < ndst - nsrc" "ndst - nsrc < 8" by linarith+
    from mod_8_small [OF this] h show False by simp
  qed
  with assms show "swapped nsrc ndst i" unfolding swapped_def by linarith
  from assms show "\<not> swapped (nsrc + 4) (ndst - 4) i" unfolding swapped_def by linarith
qed

lemma swapped_inner:
  assumes "nsrc + 4 \<le> i" "i < ndst"
  shows "swapped (nsrc + 4) (ndst - 4) i = swapped nsrc ndst i"
proof -
  have "nsrc + 4 + (ndst - 4) = nsrc + ndst" by simp
  with assms show ?thesis unfolding swapped_def mod_8_step by simp
qed

lemma swapped_outside:
  assumes "i < nsrc \<or> ndst + 4 \<le> i"
  shows "\<not> swapped nsrc ndst i" "\<not> swapped (nsrc + 4) (ndst - 4) i"
  using assms unfolding swapped_def by linarith+

lemma swapped_done:
  assumes "\<not> nsrc < ndst" "(ndst - nsrc) mod 4 = 0"
  shows "\<not> swapped nsrc ndst i"
proof (cases "ndst = nsrc")
  case True
  then show ?thesis unfolding swapped_def by simp
next
  case False
  with assms mod_4_neg_gap [of "ndst - nsrc"] have "ndst \<le> nsrc - 4" by simp
  then show ?thesis unfolding swapped_def by linarith
qed

lemma reverse_inplace_quad_loop_spec:
  assumes "0 \<le> nsrc" "ndst + 4 \<le> int (length m)" "(ndst - nsrc) mod 4 = 0"
  shows "\<exists>m'. reverse_inplace_quad_loop e m nsrc ndst = Some m' \<and> length m' = length m \<and>
     (\<forall>i. 0 \<le> i \<and> i < int (length m) \<longrightarrow> m' ! nat i =
        (if swapped nsrc ndst i then m ! nat (nsrc + ndst + 3 - i) else m ! nat i))"
  using assms
proof (induction e m nsrc ndst rule: reverse_inplace_quad_loop.induct)
  case (1 e m nsrc ndst)
  show ?case
  proof (cases "nsrc < ndst")
    case False
    with "1.prems" have "\<And>i. \<not> swapped nsrc ndst i" by (simp add: swapped_done)
    with False show ?thesis by (subst reverse_inplace_quad_loop.simps) simp
  next
    case True
    with "1.prems" mod_4_gap [of "ndst - nsrc"] have gap: "nsrc + 4 \<le> ndst" by simp
    from quad_swap_step [OF "1.prems"(1) gap "1.prems"(2), of e]
    obtain last_quad first_quad m1 m2 where
      ld: "load32 e m ndst = Some last_quad" "load32 e m nsrc = Some first_quad"
      and st: "store32 e m ndst (bswap_32 first_quad) = Some m1"
        "store32 e m1 nsrc (bswap_32 last_quad) = Some m2"
      and len2: "length m2 = length m"
      and nth2: "\<And>i. 0 \<le> i \<Longrightarrow> i < int (length m) \<Longrightarrow> m2 ! nat i =
        (if (nsrc \<le> i \<and> i < nsrc + 4) \<or> (ndst \<le> i \<and> i < ndst + 4)
         then m ! nat (nsrc + ndst + 3 - i) else m ! nat i)"
      by blast
    have pre12: "0 \<le> nsrc + 4" "ndst - 4 + 4 \<le> int (length m2)"
      using "1.prems" len2 by simp_all
    have pre3: "(ndst - 4 - (nsrc + 4)) mod 4 = 0"
      using "1.prems"(3) by (simp only: mod_4_step)
    note pre = pre12 pre3
    from "1.IH" [OF True ld st pre]
    obtain m' where run': "reverse_inplace_quad_loop e m2 (nsrc + 4) (ndst - 4) = Some m'"
      and len': "length m' = length m2"
      and nth': "\<And>i. 0 \<le> i \<Longrightarrow> i < int (length m2) \<Longrightarrow> m' ! nat i =
        (if swapped (nsrc + 4) (ndst - 4) i then m2 ! nat (nsrc + 4 + (ndst - 4) + 3 - i)
         else m2 ! nat i)"
      by blast
    have run: "reverse_inplace_quad_loop e m nsrc ndst = Some m'"
      using True ld st run' by (subst reverse_inplace_quad_loop.simps) simp
    have "m' ! nat i = (if swapped nsrc ndst i then m ! nat (nsrc + ndst + 3 - i) else m ! nat i)"
      if i: "0 \<le> i" "i < int (length m)" for i
    proof -
      consider (outer) "(nsrc \<le> i \<and> i < nsrc + 4) \<or> (ndst \<le> i \<and> i < ndst + 4)"
        | (inner) "nsrc + 4 \<le> i \<and> i < ndst" | (outside) "i < nsrc \<or> ndst + 4 \<le> i"
        by linarith
      then show ?thesis
      proof cases
        case outer
        with swapped_outer [OF gap outer] nth' [of i] nth2 [of i] i len2 show ?thesis by simp
      next
        case inner
        let ?j = "nsrc + ndst + 3 - i"
        have j: "0 \<le> ?j" "?j < int (length m)" "nsrc + 4 \<le> ?j \<and> ?j < ndst"
          using inner "1.prems" by linarith+
        have "nsrc + 4 + (ndst - 4) + 3 - i = ?j" by simp
        with swapped_inner [of nsrc i ndst] inner nth' [of i] nth2 [of i] nth2 [of ?j] i j len2
        show ?thesis by simp
      next
        case outside
        with gap have "\<not> ((nsrc \<le> i \<and> i < nsrc + 4) \<or> (ndst \<le> i \<and> i < ndst + 4))"
          by linarith
        with swapped_outside [OF outside] nth' [of i] nth2 [of i] i len2 show ?thesis by simp
      qed
    qed
    with run len' len2 show ?thesis by simp
  qed
qed


lemma int_length_mod:
  assumes "length m mod n = 0"
  shows "int (length m) mod int n = 0"
proof -
  have "int (length m) mod int n = int (length m mod n)" by (simp add: zmod_int)
  with assms show ?thesis by simp
qed

lemma swapped_mirror: "swapped a b (a + b + 3 - i) = swapped a b i"
  unfolding swapped_def by auto

lemma swapped_range: "swapped a b i \<Longrightarrow> a \<le> i \<and> i < b + 4"
  by (simp add: swapped_def)

lemma reverse_inplace_quad_spec:
  assumes "0 \<le> off" "0 \<le> sz" "sz mod 4 = 0" "off + sz \<le> int (length m)"
  shows "\<exists>m'. reverse_inplace_quad e m off sz = Some m' \<and> length m' = length m \<and>
     (\<forall>i. 0 \<le> i \<and> i < int (length m) \<longrightarrow> m' ! nat i =
        (if swapped off (off + sz - 4) i then m ! nat (off + (off + sz - 4) + 3 - i)
         else m ! nat i))"
proof -
  have a: "off + sz - 4 + 4 \<le> int (length m)" using assms by simp
  have "(sz - 4) mod 4 = 0" using assms(3) by (simp only: minus_mod_self2)
  moreover have "off + sz - 4 - off = sz - 4" by simp
  ultimately have b: "(off + sz - 4 - off) mod 4 = 0" by simp
  from reverse_inplace_quad_loop_spec [OF assms(1) a b, of e] show ?thesis
    by (simp only: reverse_inplace_quad_def)
qed

lemma reverse_inplace_quad_involution:
  assumes "0 \<le> off" "0 \<le> sz" "sz mod 4 = 0" "off + sz \<le> int (length m)"
  shows "\<exists>m1. reverse_inplace_quad e m off sz = Some m1
      \<and> reverse_inplace_quad e m1 off sz = Some m"
proof -
  let ?hi = "off + sz - 4"
  from reverse_inplace_quad_spec [OF assms, of e]
  obtain m1 where r1: "reverse_inplace_quad e m off sz = Some m1"
    and l1: "length m1 = length m"
    and n1: "\<And>i. 0 \<le> i \<Longrightarrow> i < int (length m) \<Longrightarrow> m1 ! nat i =
        (if swapped off ?hi i then m ! nat (off + ?hi + 3 - i) else m ! nat i)"
    by blast
  from assms(4) l1 have "off + sz \<le> int (length m1)" by simp
  from reverse_inplace_quad_spec [OF assms(1,2,3) this, of e]
  obtain m2 where r2: "reverse_inplace_quad e m1 off sz = Some m2"
    and l2: "length m2 = length m1"
    and n2: "\<And>i. 0 \<le> i \<Longrightarrow> i < int (length m1) \<Longrightarrow> m2 ! nat i =
        (if swapped off ?hi i then m1 ! nat (off + ?hi + 3 - i) else m1 ! nat i)"
    by blast
  have "m2 = m"
  proof (rule nth_equalityI)
    show "length m2 = length m" using l1 l2 by simp
  next
    fix k assume "k < length m2"
    then have k: "0 \<le> int k" "int k < int (length m)" "int k < int (length m1)"
      using l1 l2 by simp_all
    show "m2 ! k = m ! k"
    proof (cases "swapped off ?hi (int k)")
      case False
      with n2 [OF k(1,3)] n1 [OF k(1,2)] show ?thesis by simp
    next
      case True
      let ?j = "off + ?hi + 3 - int k"
      from swapped_range [OF True] assms have j: "0 \<le> ?j" "?j < int (length m)" by linarith+
      have sj: "swapped off ?hi ?j" using True by (simp only: swapped_mirror)
      have jj: "off + ?hi + 3 - ?j = int k" by simp
      from n2 [OF k(1,3)] True have "m2 ! k = m1 ! nat ?j" by simp
      also from n1 [OF j] sj have "\<dots> = m ! nat (off + ?hi + 3 - ?j)" by simp
      also have "\<dots> = m ! k" by (simp only: jj nat_int)
      finally show ?thesis .
    qed
  qed
  with r1 r2 show ?thesis by simp
qed

text \<open>
  The sizes that \<open>rotate_map\<close> hands to \<open>reverse_inplace_quad\<close> are \<open>wh\<close> and
  \<open>wh / 4\<close>.  For a frame whose width and height are multiples of 16, as the header
  of \<open>rotate.c\<close> requires, both are multiples of 8.
\<close>

lemma plane_sizes_multiple_of_8:
  assumes "width mod 16 = 0" and "height mod 16 = (0 :: int)"
  shows "(width * height) mod 8 = 0" and "c_div (width * height) 4 mod 8 = 0"
proof -
  from assms(1) obtain a where a: "width = 16 * a" by (auto simp add: mod_eq_0_iff_dvd)
  from assms(2) obtain b where b: "height = 16 * b" by (auto simp add: mod_eq_0_iff_dvd)
  define p where "p = a * b"
  have wh: "width * height = 256 * p" unfolding a b p_def by simp
  show "(width * height) mod 8 = 0" unfolding wh by simp
  have "\<bar>256 * p\<bar> div 4 = 64 * \<bar>p\<bar>" by (simp add: abs_mult)
  moreover have "sgn (256 * p) = sgn p" by (simp add: sgn_mult)
  ultimately have "c_div (256 * p) 4 = sgn p * (64 * \<bar>p\<bar>)" by (simp add: c_div_def)
  also have "\<dots> = 64 * (sgn p * \<bar>p\<bar>)" by simp
  also have "\<dots> = 64 * p" by (simp only: mult_sgn_abs)
  finally show "c_div (width * height) 4 mod 8 = 0" unfolding wh by simp
qed

text \<open>
  C4, as stated: for every extent whose size is a multiple of 4,
  \<open>reverse_inplace_quad\<close> yields the byte-for-byte reversal of the extent.  It does
  not when the number of quads is odd: the loop ends when both pointers meet at the
  middle quad, which keeps its byte order.  An extent of one quad comes back as it
  was, in either byte order.
\<close>

theorem reverse_inplace_quad_single_quad:
  "reverse_inplace_quad Little [1, 2, 3, 4] 0 4 = Some [1, 2, 3, 4]
   \<and> reverse_inplace_quad Big [1, 2, 3, 4] 0 4 = Some [1, 2, 3, 4]
   \<and> rev [1, 2, 3, 4 :: byte] \<noteq> [1, 2, 3, 4]"
  by (simp add: reverse_inplace_quad_def reverse_inplace_quad_loop.simps)

text \<open>
  C4, amended: for every extent whose size is a multiple of 8, at any place in a
  buffer, \<open>reverse_inplace_quad\<close> yields the byte-for-byte reversal of the extent and
  leaves the bytes before and after it as they are.
\<close>

theorem reverse_inplace_quad_extent_reversed:
  assumes "0 \<le> off" and "0 \<le> sz" and "sz mod 8 = 0" and "off + sz \<le> int (length m)"
  shows "reverse_inplace_quad e m off sz =
    Some (take (nat off) m @ rev (take (nat sz) (drop (nat off) m)) @ drop (nat (off + sz)) m)"
proof -
  define a where "a = nat off"
  define s where "s = nat sz"
  have as: "off = int a" "sz = int s" "a + s \<le> length m" "nat (off + sz) = a + s"
    using assms by (simp_all add: a_def s_def)
  let ?R = "take a m @ rev (take s (drop a m)) @ drop (a + s) m"
  have n4: "sz mod 4 = 0" using assms(3) by presburger
  have "(sz - 4) mod 8 = (sz mod 8 - 4) mod 8" by (simp only: mod_diff_left_eq)
  with assms(3) have "(sz - 4) mod 8 \<noteq> 0" by simp
  moreover have "off + sz - 4 - off = sz - 4" by simp
  ultimately have odd: "(off + sz - 4 - off) mod 8 \<noteq> 0" by simp
  from reverse_inplace_quad_spec [OF assms(1,2) n4 assms(4), of e]
  obtain m' where r: "reverse_inplace_quad e m off sz = Some m'"
    and l: "length m' = length m"
    and n: "\<And>i. 0 \<le> i \<Longrightarrow> i < int (length m) \<Longrightarrow> m' ! nat i =
        (if swapped off (off + sz - 4) i then m ! nat (off + (off + sz - 4) + 3 - i)
         else m ! nat i)"
    by blast
  have lR: "length ?R = length m" using as by simp
  have "m' = ?R"
  proof (rule nth_equalityI)
    show "length m' = length ?R" using l lR by simp
  next
    fix k assume "k < length m'"
    then have k: "0 \<le> int k" "int k < int (length m)" "k < length m" using l by simp_all
    consider (before) "k < a" | (inside) "a \<le> k \<and> k < a + s" | (after) "a + s \<le> k"
      by linarith
    then show "m' ! k = ?R ! k"
    proof cases
      case before
      then have "\<not> swapped off (off + sz - 4) (int k)" using as by (simp add: swapped_def)
      with n [OF k(1,2)] have "m' ! k = m ! k" by simp
      also have "\<dots> = ?R ! k" using before as by (simp add: nth_append)
      finally show ?thesis .
    next
      case after
      then have "\<not> swapped off (off + sz - 4) (int k)" using as by (simp add: swapped_def)
      with n [OF k(1,2)] have "m' ! k = m ! k" by simp
      also have "\<dots> = ?R ! k"
      proof -
        from after have f: "\<not> k < a" "\<not> k - a < s" "a + s + (k - a - s) = k" by linarith+
        have "?R ! k = drop (a + s) m ! (k - a - s)" using f as by (simp add: nth_append)
        also have "\<dots> = m ! (a + s + (k - a - s))" using as by (intro nth_drop) simp
        finally show ?thesis using f by simp
      qed
      finally show ?thesis .
    next
      case inside
      then have "swapped off (off + sz - 4) (int k)" using as odd by (simp add: swapped_def)
      with n [OF k(1,2)] have "m' ! k = m ! nat (off + (off + sz - 4) + 3 - int k)" by simp
      also have "nat (off + (off + sz - 4) + 3 - int k) = a + (s - Suc (k - a))"
        using inside as by simp
      also have "m ! (a + (s - Suc (k - a))) = ?R ! k"
      proof -
        from inside have f: "\<not> k < a" "k - a < s" by linarith+
        have "?R ! k = rev (take s (drop a m)) ! (k - a)"
          using f as by (simp add: nth_append)
        also have "\<dots> = take s (drop a m) ! (s - Suc (k - a))"
          using f as by (simp add: rev_nth)
        also have "\<dots> = m ! (a + (s - Suc (k - a)))" using f as by simp
        finally show ?thesis by simp
      qed
      finally show ?thesis .
    qed
  qed
  with r show ?thesis by (simp add: a_def s_def as(4) [unfolded a_def s_def])
qed

theorem reverse_inplace_quad_extent_reversed_witness:
  "reverse_inplace_quad Big [0, 1, 2, 3, 4, 5, 6, 7, 8, 9, 10, 11, 12, 13, 14, 15] 4 8
     = Some [0, 1, 2, 3, 11, 10, 9, 8, 7, 6, 5, 4, 12, 13, 14, 15]"
proof -
  let ?m = "[0, 1, 2, 3, 4, 5, 6, 7, 8, 9, 10, 11, 12, 13, 14, 15] :: byte list"
  have h: "(0 :: int) \<le> 4" "(0 :: int) \<le> 8" "(8 :: int) mod 8 = 0" "4 + 8 \<le> int (length ?m)"
    by simp_all
  from reverse_inplace_quad_extent_reversed [OF h, of Big] show ?thesis by simp
qed

text \<open>
  C8: for every buffer whose size is a positive multiple of 4, applying
  \<open>reverse_inplace_quad\<close> twice gives back the original bytes.
\<close>

theorem reverse_inplace_quad_twice:
  assumes "0 < length m" and "length m mod 4 = 0"
  shows "\<exists>m1. reverse_inplace_quad e m 0 (int (length m)) = Some m1
      \<and> reverse_inplace_quad e m1 0 (int (length m)) = Some m"
proof -
  have "int (length m) mod 4 = 0" using int_length_mod [OF assms(2)] by simp
  then show ?thesis by (intro reverse_inplace_quad_involution) simp_all
qed

theorem reverse_inplace_quad_twice_witness:
  "reverse_inplace_quad Little [1, 2, 3, 4, 5, 6, 7, 8, 9, 10, 11, 12] 0 12
     = Some [12, 11, 10, 9, 5, 6, 7, 8, 4, 3, 2, 1]
   \<and> reverse_inplace_quad Little [12, 11, 10, 9, 5, 6, 7, 8, 4, 3, 2, 1] 0 12
     = Some [1, 2, 3, 4, 5, 6, 7, 8, 9, 10, 11, 12]"
proof -
  let ?m = "[1, 2, 3, 4, 5, 6, 7, 8, 9, 10, 11, 12] :: byte list"
  have h: "0 < length ?m" "length ?m mod 4 = 0" by simp_all
  have run: "reverse_inplace_quad Little ?m 0 12 = Some [12, 11, 10, 9, 5, 6, 7, 8, 4, 3, 2, 1]"
    by code_simp
  from reverse_inplace_quad_twice [OF h, of Little] run show ?thesis by simp
qed


section \<open>Quarter turns\<close>

lemma rot90cw_inner_spec:
  assumes "\<forall>t. 0 \<le> t \<and> t < height - j \<longrightarrow> 0 \<le> s - t * width \<and> s - t * width < int (length src)"
    and "0 \<le> d" and "j < height \<longrightarrow> d + (height - j) \<le> int (length dst)"
  shows "\<exists>dst'. rot90cw_inner src width height j s dst d = Some (dst', d + max 0 (height - j))
      \<and> length dst' = length dst
      \<and> (\<forall>i. 0 \<le> i \<and> i < int (length dst) \<longrightarrow> dst' ! nat i =
            (if d \<le> i \<and> i < d + (height - j) then src ! nat (s - (i - d) * width)
             else dst ! nat i))"
  using assms
proof (induction src width height j s dst d rule: rot90cw_inner.induct)
  case (1 src width height j s dst d)
  show ?case
  proof (cases "j < height")
    case False
    then have no: "\<And>i. (d \<le> i \<and> i < d + (height - j)) = False" by auto
    have "rot90cw_inner src width height j s dst d = Some (dst, d + max 0 (height - j))"
      using False by (subst rot90cw_inner.simps) simp
    moreover have "\<forall>i. 0 \<le> i \<and> i < int (length dst) \<longrightarrow> dst ! nat i =
            (if d \<le> i \<and> i < d + (height - j) then src ! nat (s - (i - d) * width)
             else dst ! nat i)"
      by (simp only: no if_False) simp
    ultimately show ?thesis by blast
  next
    case jlt: True
    from "1.prems"(1) jlt have s: "0 \<le> s" "s < int (length src)"
      by (auto dest: spec [of _ 0])
    from "1.prems" jlt have d: "0 \<le> d" "d < int (length dst)" by simp_all
    have pk: "peek src s = Some (src ! nat s)" using s by (rule peek_Some)
    have po: "poke dst d (src ! nat s) = Some (dst[nat d := src ! nat s])"
      using d by (rule poke_Some)
    have pre1: "\<forall>t. 0 \<le> t \<and> t < height - (j + 1) \<longrightarrow>
        0 \<le> s - width - t * width \<and> s - width - t * width < int (length src)"
    proof (intro allI impI)
      fix t assume t: "0 \<le> t \<and> t < height - (j + 1)"
      have "s - width - t * width = s - (t + 1) * width" by (simp add: algebra_simps)
      moreover from t "1.prems"(1) have
        "0 \<le> s - (t + 1) * width \<and> s - (t + 1) * width < int (length src)"
        by (auto dest: spec [of _ "t + 1"])
      ultimately show "0 \<le> s - width - t * width \<and> s - width - t * width < int (length src)"
        by simp
    qed
    have pre2: "0 \<le> d + 1" using d by simp
    have pre3: "j + 1 < height \<longrightarrow> d + 1 + (height - (j + 1)) \<le> int (length (dst[nat d := src ! nat s]))"
      using "1.prems" jlt by simp
    from "1.IH" [OF jlt pk po pre1 pre2 pre3]
    obtain dst' where
      run': "rot90cw_inner src width height (j + 1) (s - width) (dst[nat d := src ! nat s]) (d + 1)
              = Some (dst', d + 1 + max 0 (height - (j + 1)))"
      and len': "length dst' = length dst"
      and nth': "\<And>i. 0 \<le> i \<Longrightarrow> i < int (length dst) \<Longrightarrow> dst' ! nat i =
            (if d + 1 \<le> i \<and> i < d + 1 + (height - (j + 1))
             then src ! nat (s - width - (i - (d + 1)) * width)
             else dst[nat d := src ! nat s] ! nat i)"
      by auto
    have run: "rot90cw_inner src width height j s dst d = Some (dst', d + max 0 (height - j))"
      using jlt pk po run' by (subst rot90cw_inner.simps) (simp add: max_def)
    have "dst' ! nat i = (if d \<le> i \<and> i < d + (height - j) then src ! nat (s - (i - d) * width)
             else dst ! nat i)" if i: "0 \<le> i" "i < int (length dst)" for i
    proof -
      consider (first) "i = d" | (later) "d + 1 \<le> i \<and> i < d + (height - j)"
        | (other) "i < d \<or> d + (height - j) \<le> i" by linarith
      then show ?thesis
      proof cases
        case first
        with nth' [of i] i d jlt show ?thesis by simp
      next
        case later
        have eq: "s - width - (i - (d + 1)) * width = s - (i - d) * width"
          by (simp add: algebra_simps)
        from later nth' [of i] i
        have "dst' ! nat i = src ! nat (s - width - (i - (d + 1)) * width)" by simp
        also have "\<dots> = src ! nat (s - (i - d) * width)" by (simp only: eq)
        finally show ?thesis using later by simp
      next
        case other
        then have "nat d \<noteq> nat i" using i d jlt by linarith
        with other nth' [of i] i show ?thesis by auto
      qed
    qed
    with run len' show ?thesis by simp
  qed
qed


lemma rot90cw_outer_spec:
  assumes "0 \<le> height"
    and "\<forall>b t. base \<le> b \<and> b < endp \<and> 0 \<le> t \<and> t < height \<longrightarrow>
           0 \<le> b - t * width \<and> b - t * width < int (length src)"
    and "0 \<le> d" and "base < endp \<longrightarrow> d + (endp - base) * height \<le> int (length dst)"
  shows "\<exists>dst'. rot90cw_outer src endp width height base dst d = Some dst'
      \<and> length dst' = length dst
      \<and> (\<forall>x y. 0 \<le> x \<and> x < endp - base \<and> 0 \<le> y \<and> y < height \<longrightarrow>
            dst' ! nat (d + x * height + y) = src ! nat (base + x - y * width))
      \<and> (\<forall>i. 0 \<le> i \<and> i < int (length dst) \<and> (i < d \<or> d + (endp - base) * height \<le> i) \<longrightarrow>
            dst' ! nat i = dst ! nat i)"
  using assms
proof (induction src endp width height base dst d rule: rot90cw_outer.induct)
  case (1 src endp width height base dst d)
  show ?case
  proof (cases "base < endp")
    case False
    have "rot90cw_outer src endp width height base dst d = Some dst"
      using False by (subst rot90cw_outer.simps) simp
    moreover have "\<And>x. \<not> (0 \<le> x \<and> x < endp - base)" using False by auto
    moreover have "(endp - base) * height \<le> 0"
      using False "1.prems"(1) by (simp add: mult_nonpos_nonneg)
    ultimately show ?thesis by auto
  next
    case blt: True
    define n where "n = endp - base - 1"
    have n: "0 \<le> n" "endp - base = n + 1" using blt by (simp_all add: n_def)
    have n': "endp - (base + 1) = n" by (simp add: n_def)
    have nh: "0 \<le> n * height" using n "1.prems"(1) by simp
    have split: "(endp - base) * height = height + n * height"
      unfolding n by (simp add: algebra_simps)
    have room: "d + height + n * height \<le> int (length dst)"
      using "1.prems"(4) blt split by simp
    have ipre1: "\<forall>t. 0 \<le> t \<and> t < height - 0 \<longrightarrow>
        0 \<le> base - t * width \<and> base - t * width < int (length src)"
      using "1.prems"(2) blt by simp
    have ipre3: "0 < height \<longrightarrow> d + (height - 0) \<le> int (length dst)"
      using room nh by simp
    from rot90cw_inner_spec [OF ipre1 "1.prems"(3) ipre3]
    obtain dst1 where
      inner: "rot90cw_inner src width height 0 base dst d = Some (dst1, d + height)"
      and len1: "length dst1 = length dst"
      and nth1: "\<And>i. 0 \<le> i \<Longrightarrow> i < int (length dst) \<Longrightarrow> dst1 ! nat i =
            (if d \<le> i \<and> i < d + height then src ! nat (base - (i - d) * width)
             else dst ! nat i)"
      using "1.prems"(1) by (auto simp add: max_def)
    have opre2: "\<forall>b t. base + 1 \<le> b \<and> b < endp \<and> 0 \<le> t \<and> t < height \<longrightarrow>
           0 \<le> b - t * width \<and> b - t * width < int (length src)"
      using "1.prems"(2) by simp
    have opre3: "0 \<le> d + height" using "1.prems" by simp
    have opre4: "base + 1 < endp \<longrightarrow>
        d + height + (endp - (base + 1)) * height \<le> int (length dst1)"
      unfolding n' using room len1 by simp
    from "1.IH" [OF blt inner refl "1.prems"(1) opre2 opre3 opre4]
    obtain dst' where
      run': "rot90cw_outer src endp width height (base + 1) dst1 (d + height) = Some dst'"
      and len': "length dst' = length dst1"
      and cell': "\<And>x y. 0 \<le> x \<Longrightarrow> x < endp - (base + 1) \<Longrightarrow> 0 \<le> y \<Longrightarrow> y < height \<Longrightarrow>
            dst' ! nat (d + height + x * height + y) = src ! nat (base + 1 + x - y * width)"
      and rest': "\<And>i. 0 \<le> i \<Longrightarrow> i < int (length dst1) \<Longrightarrow>
            i < d + height \<or> d + height + (endp - (base + 1)) * height \<le> i \<Longrightarrow>
            dst' ! nat i = dst1 ! nat i"
      by blast
    have run: "rot90cw_outer src endp width height base dst d = Some dst'"
      using blt inner run' by (subst rot90cw_outer.simps) simp
    have cell: "dst' ! nat (d + x * height + y) = src ! nat (base + x - y * width)"
      if xy: "0 \<le> x" "x < endp - base" "0 \<le> y" "y < height" for x y
    proof (cases "x = 0")
      case True
      have r: "0 \<le> d + y" "d + y < int (length dst)" "d + y < d + height"
        using xy "1.prems"(3) room nh by simp_all
      from rest' [of "d + y"] r len1 have "dst' ! nat (d + y) = dst1 ! nat (d + y)" by simp
      also from nth1 [of "d + y"] r xy have "\<dots> = src ! nat (base - y * width)" by simp
      finally show ?thesis using True by simp
    next
      case False
      with xy have x1: "0 \<le> x - 1" "x - 1 < endp - (base + 1)" by linarith+
      have e1: "d + height + (x - 1) * height + y = d + x * height + y"
        by (simp add: algebra_simps)
      have e2: "base + 1 + (x - 1) - y * width = base + x - y * width" by simp
      from cell' [OF x1 xy(3,4)] show ?thesis by (simp only: e1 e2)
    qed
    have rest: "dst' ! nat i = dst ! nat i"
      if i: "0 \<le> i" "i < int (length dst)" "i < d \<or> d + (endp - base) * height \<le> i" for i
    proof -
      from i(3) have out: "i < d \<or> d + height + n * height \<le> i" unfolding split by linarith
      then have "i < d + height \<or> d + height + (endp - (base + 1)) * height \<le> i"
        unfolding n' using "1.prems"(1) by linarith
      with rest' [of i] i len1 have "dst' ! nat i = dst1 ! nat i" by simp
      also from out nh have "\<not> (d \<le> i \<and> i < d + height)" by linarith
      with nth1 [of i] i have "dst1 ! nat i = dst ! nat i" by simp
      finally show ?thesis .
    qed
    from run len' len1 cell rest show ?thesis by simp
  qed
qed


lemma cell_in_range:
  assumes "0 \<le> r" "r < h" "0 \<le> x" "x < w"
  shows "0 \<le> r * w + x" "r * w + x < w * (h :: int)"
proof -
  from assms have w: "0 \<le> w" by simp
  with assms show "0 \<le> r * w + x" by simp
  have "r * w + x < r * w + w" using assms by simp
  also have "\<dots> = (r + 1) * w" by (simp add: algebra_simps)
  also have "\<dots> \<le> h * w" using assms w by (intro mult_right_mono) simp_all
  finally show "r * w + x < w * h" by (simp add: mult.commute)
qed

lemma rot90cw_spec:
  assumes "0 \<le> width" "0 \<le> height" "sz = width * height"
    and "0 \<le> s0" "s0 + sz \<le> int (length src)" "0 \<le> d0" "d0 + sz \<le> int (length dst)"
  shows "\<exists>dst'. rot90cw src s0 dst d0 sz width height = Some dst'
      \<and> length dst' = length dst
      \<and> (\<forall>x y. 0 \<le> x \<and> x < width \<and> 0 \<le> y \<and> y < height \<longrightarrow>
            dst' ! nat (d0 + x * height + y) = src ! nat (s0 + (height - 1 - y) * width + x))
      \<and> (\<forall>i. 0 \<le> i \<and> i < int (length dst) \<and> (i < d0 \<or> d0 + sz \<le> i) \<longrightarrow>
            dst' ! nat i = dst ! nat i)"
proof -
  define endp where "endp = s0 + sz"
  define base where "base = endp - width"
  have eb: "endp - base = width" by (simp add: base_def)
  have addr: "b - t * width = s0 + (height - 1 - t) * width + (b - base)" for b t
    unfolding base_def endp_def assms(3) by (simp add: algebra_simps)
  have reads: "\<forall>b t. base \<le> b \<and> b < endp \<and> 0 \<le> t \<and> t < height \<longrightarrow>
           0 \<le> b - t * width \<and> b - t * width < int (length src)"
  proof (intro allI impI)
    fix b t assume h: "base \<le> b \<and> b < endp \<and> 0 \<le> t \<and> t < height"
    then have "0 \<le> height - 1 - t" "height - 1 - t < height" "0 \<le> b - base" "b - base < width"
      using eb by linarith+
    from cell_in_range [OF this] assms(3,4,5)
    have "0 \<le> s0 + (height - 1 - t) * width + (b - base)"
      "s0 + (height - 1 - t) * width + (b - base) < int (length src)"
      by linarith+
    then show "0 \<le> b - t * width \<and> b - t * width < int (length src)"
      by (simp only: addr)
  qed
  have writes: "base < endp \<longrightarrow> d0 + (endp - base) * height \<le> int (length dst)"
    unfolding eb using assms(3,7) by simp
  from rot90cw_outer_spec [OF assms(2) reads assms(6) writes]
  obtain dst' where run: "rot90cw_outer src endp width height base dst d0 = Some dst'"
    and len: "length dst' = length dst"
    and cell: "\<And>x y. 0 \<le> x \<Longrightarrow> x < endp - base \<Longrightarrow> 0 \<le> y \<Longrightarrow> y < height \<Longrightarrow>
            dst' ! nat (d0 + x * height + y) = src ! nat (base + x - y * width)"
    and rest: "\<And>i. 0 \<le> i \<Longrightarrow> i < int (length dst) \<Longrightarrow>
            i < d0 \<or> d0 + (endp - base) * height \<le> i \<Longrightarrow> dst' ! nat i = dst ! nat i"
    by blast
  have "rot90cw src s0 dst d0 sz width height = Some dst'"
    using run by (simp add: rot90cw_def Let_def endp_def base_def)
  moreover have "dst' ! nat (d0 + x * height + y) = src ! nat (s0 + (height - 1 - y) * width + x)"
    if "0 \<le> x" "x < width" "0 \<le> y" "y < height" for x y
  proof -
    have a: "base + x - y * width = s0 + (height - 1 - y) * width + x"
      using addr [of "base + x" y] by simp
    from cell [of x y] that eb
    have "dst' ! nat (d0 + x * height + y) = src ! nat (base + x - y * width)" by simp
    then show ?thesis by (simp only: a)
  qed
  moreover have "dst' ! nat i = dst ! nat i"
    if "0 \<le> i" "i < int (length dst)" "i < d0 \<or> d0 + sz \<le> i" for i
    using rest [of i] that eb assms(3) by simp
  ultimately show ?thesis using len by blast
qed


lemma rot90ccw_inner_spec:
  assumes "\<forall>t. 0 \<le> t \<and> t < height - j \<longrightarrow> 0 \<le> s - t * width \<and> s - t * width < int (length src)"
    and "j < height \<longrightarrow> d < int (length dst) \<and> 0 \<le> d - (height - j) + 1"
  shows "\<exists>dst'. rot90ccw_inner src width height j s dst d = Some (dst', d - max 0 (height - j))
      \<and> length dst' = length dst
      \<and> (\<forall>i. 0 \<le> i \<and> i < int (length dst) \<longrightarrow> dst' ! nat i =
            (if d - (height - j) < i \<and> i \<le> d then src ! nat (s - (d - i) * width)
             else dst ! nat i))"
  using assms
proof (induction src width height j s dst d rule: rot90ccw_inner.induct)
  case (1 src width height j s dst d)
  show ?case
  proof (cases "j < height")
    case False
    then have no: "\<And>i. (d - (height - j) < i \<and> i \<le> d) = False" by auto
    have "rot90ccw_inner src width height j s dst d = Some (dst, d - max 0 (height - j))"
      using False by (subst rot90ccw_inner.simps) simp
    moreover have "\<forall>i. 0 \<le> i \<and> i < int (length dst) \<longrightarrow> dst ! nat i =
            (if d - (height - j) < i \<and> i \<le> d then src ! nat (s - (d - i) * width)
             else dst ! nat i)"
      by (simp only: no if_False) simp
    ultimately show ?thesis by blast
  next
    case jlt: True
    from "1.prems"(1) jlt have s: "0 \<le> s" "s < int (length src)"
      by (auto dest: spec [of _ 0])
    from "1.prems" jlt have d: "0 \<le> d" "d < int (length dst)" by simp_all
    have pk: "peek src s = Some (src ! nat s)" using s by (rule peek_Some)
    have po: "poke dst d (src ! nat s) = Some (dst[nat d := src ! nat s])"
      using d by (rule poke_Some)
    have pre1: "\<forall>t. 0 \<le> t \<and> t < height - (j + 1) \<longrightarrow>
        0 \<le> s - width - t * width \<and> s - width - t * width < int (length src)"
    proof (intro allI impI)
      fix t assume t: "0 \<le> t \<and> t < height - (j + 1)"
      have "s - width - t * width = s - (t + 1) * width" by (simp add: algebra_simps)
      moreover from t "1.prems"(1) have
        "0 \<le> s - (t + 1) * width \<and> s - (t + 1) * width < int (length src)"
        by (auto dest: spec [of _ "t + 1"])
      ultimately show "0 \<le> s - width - t * width \<and> s - width - t * width < int (length src)"
        by simp
    qed
    have pre2: "j + 1 < height \<longrightarrow> d - 1 < int (length (dst[nat d := src ! nat s]))
        \<and> 0 \<le> d - 1 - (height - (j + 1)) + 1"
      using "1.prems" jlt by simp
    from "1.IH" [OF jlt pk po pre1 pre2]
    obtain dst' where
      run': "rot90ccw_inner src width height (j + 1) (s - width) (dst[nat d := src ! nat s]) (d - 1)
              = Some (dst', d - 1 - max 0 (height - (j + 1)))"
      and len': "length dst' = length dst"
      and nth': "\<And>i. 0 \<le> i \<Longrightarrow> i < int (length dst) \<Longrightarrow> dst' ! nat i =
            (if d - 1 - (height - (j + 1)) < i \<and> i \<le> d - 1
             then src ! nat (s - width - (d - 1 - i) * width)
             else dst[nat d := src ! nat s] ! nat i)"
      by auto
    have run: "rot90ccw_inner src width height j s dst d = Some (dst', d - max 0 (height - j))"
      using jlt pk po run' by (subst rot90ccw_inner.simps) (simp add: max_def)
    have "dst' ! nat i = (if d - (height - j) < i \<and> i \<le> d then src ! nat (s - (d - i) * width)
             else dst ! nat i)" if i: "0 \<le> i" "i < int (length dst)" for i
    proof -
      consider (first) "i = d" | (later) "d - (height - j) < i \<and> i \<le> d - 1"
        | (other) "i \<le> d - (height - j) \<or> d < i" by linarith
      then show ?thesis
      proof cases
        case first
        with nth' [of i] i d jlt show ?thesis by simp
      next
        case later
        have eq: "s - width - (d - 1 - i) * width = s - (d - i) * width"
          by (simp add: algebra_simps)
        from later nth' [of i] i
        have "dst' ! nat i = src ! nat (s - width - (d - 1 - i) * width)" by simp
        also have "\<dots> = src ! nat (s - (d - i) * width)" by (simp only: eq)
        finally show ?thesis using later by simp
      next
        case other
        then have "nat d \<noteq> nat i" using i d jlt by linarith
        with other nth' [of i] i show ?thesis by auto
      qed
    qed
    with run len' show ?thesis by simp
  qed
qed

lemma rot90ccw_outer_spec:
  assumes "0 \<le> height"
    and "\<forall>b t. base \<le> b \<and> b < endp \<and> 0 \<le> t \<and> t < height \<longrightarrow>
           0 \<le> b - t * width \<and> b - t * width < int (length src)"
    and "base < endp \<longrightarrow> d < int (length dst) \<and> 0 \<le> d - (endp - base) * height + 1"
  shows "\<exists>dst'. rot90ccw_outer src endp width height base dst d = Some dst'
      \<and> length dst' = length dst
      \<and> (\<forall>x y. 0 \<le> x \<and> x < endp - base \<and> 0 \<le> y \<and> y < height \<longrightarrow>
            dst' ! nat (d - x * height - y) = src ! nat (base + x - y * width))
      \<and> (\<forall>i. 0 \<le> i \<and> i < int (length dst) \<and> (d < i \<or> i \<le> d - (endp - base) * height) \<longrightarrow>
            dst' ! nat i = dst ! nat i)"
  using assms
proof (induction src endp width height base dst d rule: rot90ccw_outer.induct)
  case (1 src endp width height base dst d)
  show ?case
  proof (cases "base < endp")
    case False
    have "rot90ccw_outer src endp width height base dst d = Some dst"
      using False by (subst rot90ccw_outer.simps) simp
    moreover have "\<And>x. \<not> (0 \<le> x \<and> x < endp - base)" using False by auto
    ultimately show ?thesis by auto
  next
    case blt: True
    define n where "n = endp - base - 1"
    have n: "0 \<le> n" "endp - base = n + 1" using blt by (simp_all add: n_def)
    have n': "endp - (base + 1) = n" by (simp add: n_def)
    have nh: "0 \<le> n * height" using n "1.prems"(1) by simp
    have split: "(endp - base) * height = height + n * height"
      unfolding n by (simp add: algebra_simps)
    have room: "d < int (length dst)" "0 \<le> d - height - n * height + 1"
      using "1.prems"(3) blt split by simp_all
    have ipre1: "\<forall>t. 0 \<le> t \<and> t < height - 0 \<longrightarrow>
        0 \<le> base - t * width \<and> base - t * width < int (length src)"
      using "1.prems"(2) blt by simp
    have ipre2: "0 < height \<longrightarrow> d < int (length dst) \<and> 0 \<le> d - (height - 0) + 1"
      using room nh by simp
    from rot90ccw_inner_spec [OF ipre1 ipre2]
    obtain dst1 where
      inner: "rot90ccw_inner src width height 0 base dst d = Some (dst1, d - height)"
      and len1: "length dst1 = length dst"
      and nth1: "\<And>i. 0 \<le> i \<Longrightarrow> i < int (length dst) \<Longrightarrow> dst1 ! nat i =
            (if d - height < i \<and> i \<le> d then src ! nat (base - (d - i) * width)
             else dst ! nat i)"
      using "1.prems"(1) by (auto simp add: max_def)
    have opre2: "\<forall>b t. base + 1 \<le> b \<and> b < endp \<and> 0 \<le> t \<and> t < height \<longrightarrow>
           0 \<le> b - t * width \<and> b - t * width < int (length src)"
      using "1.prems"(2) by simp
    have opre3: "base + 1 < endp \<longrightarrow> d - height < int (length dst1)
        \<and> 0 \<le> d - height - (endp - (base + 1)) * height + 1"
      unfolding n' using room len1 "1.prems"(1) by simp
    from "1.IH" [OF blt inner refl "1.prems"(1) opre2 opre3]
    obtain dst' where
      run': "rot90ccw_outer src endp width height (base + 1) dst1 (d - height) = Some dst'"
      and len': "length dst' = length dst1"
      and cell': "\<And>x y. 0 \<le> x \<Longrightarrow> x < endp - (base + 1) \<Longrightarrow> 0 \<le> y \<Longrightarrow> y < height \<Longrightarrow>
            dst' ! nat (d - height - x * height - y) = src ! nat (base + 1 + x - y * width)"
      and rest': "\<And>i. 0 \<le> i \<Longrightarrow> i < int (length dst1) \<Longrightarrow>
            d - height < i \<or> i \<le> d - height - (endp - (base + 1)) * height \<Longrightarrow>
            dst' ! nat i = dst1 ! nat i"
      by blast
    have run: "rot90ccw_outer src endp width height base dst d = Some dst'"
      using blt inner run' by (subst rot90ccw_outer.simps) simp
    have cell: "dst' ! nat (d - x * height - y) = src ! nat (base + x - y * width)"
      if xy: "0 \<le> x" "x < endp - base" "0 \<le> y" "y < height" for x y
    proof (cases "x = 0")
      case True
      have r: "0 \<le> d - y" "d - y < int (length dst)" "d - height < d - y" "d - y \<le> d"
        using xy room nh by linarith+
      from rest' [of "d - y"] r len1 have "dst' ! nat (d - y) = dst1 ! nat (d - y)" by simp
      also from nth1 [of "d - y"] r xy have "\<dots> = src ! nat (base - y * width)" by simp
      finally show ?thesis using True by simp
    next
      case False
      with xy have x1: "0 \<le> x - 1" "x - 1 < endp - (base + 1)" by linarith+
      have e1: "d - height - (x - 1) * height - y = d - x * height - y"
        by (simp add: algebra_simps)
      have e2: "base + 1 + (x - 1) - y * width = base + x - y * width" by simp
      from cell' [OF x1 xy(3,4)] show ?thesis by (simp only: e1 e2)
    qed
    have rest: "dst' ! nat i = dst ! nat i"
      if i: "0 \<le> i" "i < int (length dst)" "d < i \<or> i \<le> d - (endp - base) * height" for i
    proof -
      from i(3) have out: "d < i \<or> i \<le> d - height - n * height" unfolding split by linarith
      then have "d - height < i \<or> i \<le> d - height - (endp - (base + 1)) * height"
        unfolding n' using "1.prems"(1) by linarith
      with rest' [of i] i len1 have "dst' ! nat i = dst1 ! nat i" by simp
      also from out nh have "\<not> (d - height < i \<and> i \<le> d)" by linarith
      with nth1 [of i] i have "dst1 ! nat i = dst ! nat i" by simp
      finally show ?thesis .
    qed
    from run len' len1 cell rest show ?thesis by simp
  qed
qed

lemma rot90ccw_spec:
  assumes "0 \<le> width" "0 \<le> height" "sz = width * height"
    and "0 \<le> s0" "s0 + sz \<le> int (length src)" "0 \<le> d0" "d0 + sz \<le> int (length dst)"
  shows "\<exists>dst'. rot90ccw src s0 dst d0 sz width height = Some dst'
      \<and> length dst' = length dst
      \<and> (\<forall>x y. 0 \<le> x \<and> x < width \<and> 0 \<le> y \<and> y < height \<longrightarrow>
            dst' ! nat (d0 + (width - 1 - x) * height + (height - 1 - y))
              = src ! nat (s0 + (height - 1 - y) * width + x))
      \<and> (\<forall>i. 0 \<le> i \<and> i < int (length dst) \<and> (i < d0 \<or> d0 + sz \<le> i) \<longrightarrow>
            dst' ! nat i = dst ! nat i)"
proof -
  define endp where "endp = s0 + sz"
  define base where "base = endp - width"
  define d where "d = d0 + sz - 1"
  have eb: "endp - base = width" by (simp add: base_def)
  have addr: "b - t * width = s0 + (height - 1 - t) * width + (b - base)" for b t
    unfolding base_def endp_def assms(3) by (simp add: algebra_simps)
  have reads: "\<forall>b t. base \<le> b \<and> b < endp \<and> 0 \<le> t \<and> t < height \<longrightarrow>
           0 \<le> b - t * width \<and> b - t * width < int (length src)"
  proof (intro allI impI)
    fix b t assume h: "base \<le> b \<and> b < endp \<and> 0 \<le> t \<and> t < height"
    then have "0 \<le> height - 1 - t" "height - 1 - t < height" "0 \<le> b - base" "b - base < width"
      using eb by linarith+
    from cell_in_range [OF this] assms(3,4,5)
    have "0 \<le> s0 + (height - 1 - t) * width + (b - base)"
      "s0 + (height - 1 - t) * width + (b - base) < int (length src)"
      by linarith+
    then show "0 \<le> b - t * width \<and> b - t * width < int (length src)"
      by (simp only: addr)
  qed
  have writes: "base < endp \<longrightarrow> d < int (length dst) \<and> 0 \<le> d - (endp - base) * height + 1"
    unfolding eb d_def using assms(3,6,7) by simp
  from rot90ccw_outer_spec [OF assms(2) reads writes]
  obtain dst' where run: "rot90ccw_outer src endp width height base dst d = Some dst'"
    and len: "length dst' = length dst"
    and cell: "\<And>x y. 0 \<le> x \<Longrightarrow> x < endp - base \<Longrightarrow> 0 \<le> y \<Longrightarrow> y < height \<Longrightarrow>
            dst' ! nat (d - x * height - y) = src ! nat (base + x - y * width)"
    and rest: "\<And>i. 0 \<le> i \<Longrightarrow> i < int (length dst) \<Longrightarrow>
            d < i \<or> i \<le> d - (endp - base) * height \<Longrightarrow> dst' ! nat i = dst ! nat i"
    by blast
  have "rot90ccw src s0 dst d0 sz width height = Some dst'"
    using run by (simp add: rot90ccw_def Let_def endp_def base_def d_def)
  moreover have "dst' ! nat (d0 + (width - 1 - x) * height + (height - 1 - y))
      = src ! nat (s0 + (height - 1 - y) * width + x)"
    if "0 \<le> x" "x < width" "0 \<le> y" "y < height" for x y
  proof -
    have a: "base + x - y * width = s0 + (height - 1 - y) * width + x"
      using addr [of "base + x" y] by simp
    have b: "d - x * height - y = d0 + (width - 1 - x) * height + (height - 1 - y)"
      unfolding d_def assms(3) by (simp add: algebra_simps)
    from cell [of x y] that eb
    have "dst' ! nat (d - x * height - y) = src ! nat (base + x - y * width)" by simp
    then show ?thesis by (simp only: a b)
  qed
  moreover have "dst' ! nat i = dst ! nat i"
    if "0 \<le> i" "i < int (length dst)" "i < d0 \<or> d0 + sz \<le> i" for i
  proof -
    from that have "d < i \<or> i \<le> d - (endp - base) * height"
      unfolding eb d_def assms(3) by (simp add: mult.commute) linarith
    with rest [of i] that show ?thesis by simp
  qed
  ultimately show ?thesis using len by blast
qed


lemma cell_decompose:
  assumes "0 < h" "0 \<le> i" "i < w * (h :: int)"
  obtains q r where "0 \<le> q" "q < w" "0 \<le> r" "r < h" "i = q * h + r"
proof -
  define q where "q = i div h"
  define r where "r = i mod h"
  have eq: "i = q * h + r" by (simp add: q_def r_def)
  have r: "0 \<le> r" "r < h" using assms(1) by (simp_all add: r_def)
  have q0: "0 \<le> q" using assms by (simp add: q_def pos_imp_zdiv_nonneg_iff)
  have "q < w"
  proof (rule ccontr)
    assume "\<not> q < w"
    then have "w * h \<le> q * h" using assms(1) by (intro mult_right_mono) simp_all
    with eq r assms(3) show False by linarith
  qed
  with q0 r eq that show thesis by blast
qed

text \<open>
  C5: for \<open>width > 0\<close>, \<open>height > 0\<close> and a source extent of \<open>width * height\<close>
  bytes, \<open>rot90cw\<close> returns and has written
  \<open>dst[x * height + y] = src[(height - 1 - y) * width + x]\<close> for all \<open>x\<close> below
  \<open>width\<close> and \<open>y\<close> below \<open>height\<close>.  The 32 by 16 buffer holding \<open>i mod 256\<close> at
  index \<open>i\<close> is the instance that follows the theorem: its byte at index 480 lands
  at index 0.
\<close>

theorem rot90cw_cells:
  assumes "0 < width" and "0 < height"
    and "int (length src) = width * height" and "width * height \<le> int (length dst)"
  shows "\<exists>dst'. rot90cw src 0 dst 0 (width * height) width height = Some dst'
      \<and> (\<forall>x y. 0 \<le> x \<and> x < width \<and> 0 \<le> y \<and> y < height \<longrightarrow>
            dst' ! nat (x * height + y) = src ! nat ((height - 1 - y) * width + x))"
proof -
  have "0 \<le> width" "0 \<le> height" "(0 :: int) \<le> 0" "0 + width * height \<le> int (length src)"
    "0 + width * height \<le> int (length dst)"
    using assms by simp_all
  from rot90cw_spec [OF this(1,2) refl this(3,4,3,5)] show ?thesis by auto
qed

theorem rot90cw_cells_witness:
  "map_option (\<lambda>dst'. dst' ! 0)
     (rot90cw (map (\<lambda>i. word_of_nat (i mod 256)) [0..<512]) 0 (replicate 512 0) 0 (32 * 16) 32 16)
   = Some ((map (\<lambda>i. word_of_nat (i mod 256)) [0..<512]) ! 480)
   \<and> (map (\<lambda>i. word_of_nat (i mod 256)) [0..<512] :: byte list) ! 480 = 224"
proof -
  let ?src = "map (\<lambda>i. word_of_nat (i mod 256)) [0..<512] :: byte list"
  let ?dst = "replicate 512 0 :: byte list"
  have h: "(0 :: int) < 32" "(0 :: int) < 16" "int (length ?src) = 32 * 16"
    "32 * 16 \<le> int (length ?dst)"
    by simp_all
  from rot90cw_cells [OF h] obtain dst' where
    run: "rot90cw ?src 0 ?dst 0 (32 * 16) 32 16 = Some dst'"
    and cell: "\<And>x y. 0 \<le> x \<and> x < 32 \<and> 0 \<le> y \<and> y < 16 \<Longrightarrow>
            dst' ! nat (x * 16 + y) = ?src ! nat ((16 - 1 - y) * 32 + x)"
    by blast
  from cell [of 0 0] have "dst' ! 0 = ?src ! 480" by simp
  moreover have "?src ! 480 = 224" by simp
  ultimately show ?thesis using run by simp
qed

text \<open>
  C6: for \<open>width > 0\<close>, \<open>height > 0\<close> and a source extent of \<open>width * height\<close>
  bytes, \<open>rot90ccw\<close> returns and has written
  \<open>dst[(width - 1 - x) * height + (height - 1 - y)] = src[(height - 1 - y) * width + x]\<close>
  for all \<open>x\<close> below \<open>width\<close> and \<open>y\<close> below \<open>height\<close>; its result is the result of
  \<open>rot90cw\<close> reflected through the centre of the destination buffer, that is,
  reversed.
\<close>

theorem rot90ccw_cells:
  assumes "0 < width" and "0 < height"
    and "int (length src) = width * height" and "int (length dst) = width * height"
  shows "\<exists>dst' cw. rot90ccw src 0 dst 0 (width * height) width height = Some dst'
      \<and> (\<forall>x y. 0 \<le> x \<and> x < width \<and> 0 \<le> y \<and> y < height \<longrightarrow>
            dst' ! nat ((width - 1 - x) * height + (height - 1 - y))
              = src ! nat ((height - 1 - y) * width + x))
      \<and> rot90cw src 0 dst 0 (width * height) width height = Some cw
      \<and> dst' = rev cw"
proof -
  have pre: "0 \<le> width" "0 \<le> height" "(0 :: int) \<le> 0" "0 + width * height \<le> int (length src)"
    "0 + width * height \<le> int (length dst)"
    using assms by simp_all
  from rot90ccw_spec [OF pre(1,2) refl pre(3,4,3,5)]
  obtain dst' where ccw: "rot90ccw src 0 dst 0 (width * height) width height = Some dst'"
    and len': "length dst' = length dst"
    and cell': "\<And>x y. 0 \<le> x \<Longrightarrow> x < width \<Longrightarrow> 0 \<le> y \<Longrightarrow> y < height \<Longrightarrow>
            dst' ! nat ((width - 1 - x) * height + (height - 1 - y))
              = src ! nat ((height - 1 - y) * width + x)"
    by auto
  from rot90cw_spec [OF pre(1,2) refl pre(3,4,3,5)]
  obtain cw where cw: "rot90cw src 0 dst 0 (width * height) width height = Some cw"
    and len: "length cw = length dst"
    and cell: "\<And>x y. 0 \<le> x \<Longrightarrow> x < width \<Longrightarrow> 0 \<le> y \<Longrightarrow> y < height \<Longrightarrow>
            cw ! nat (x * height + y) = src ! nat ((height - 1 - y) * width + x)"
    by auto
  have "dst' = rev cw"
  proof (rule nth_equalityI)
    show "length dst' = length (rev cw)" using len len' by simp
  next
    fix k assume k: "k < length dst'"
    with len' assms have ki: "0 \<le> int k" "int k < width * height" by simp_all
    from cell_decompose [OF assms(2) ki] obtain q r where
      qr: "0 \<le> q" "q < width" "0 \<le> r" "r < height" "int k = q * height + r"
      by blast
    define x where "x = width - 1 - q"
    define y where "y = height - 1 - r"
    have xy: "0 \<le> x" "x < width" "0 \<le> y" "y < height" using qr by (simp_all add: x_def y_def)
    have k1: "int k = (width - 1 - x) * height + (height - 1 - y)"
      using qr by (simp add: x_def y_def)
    have k2: "int (length cw - Suc k) = x * height + y"
    proof -
      have "int (length cw - Suc k) = width * height - 1 - int k"
        using k len len' assms by simp
      also have "\<dots> = x * height + y" unfolding qr(5) x_def y_def by (simp add: algebra_simps)
      finally show ?thesis .
    qed
    have "dst' ! k = dst' ! nat ((width - 1 - x) * height + (height - 1 - y))"
      using k1 [symmetric] by simp
    also have "\<dots> = src ! nat ((height - 1 - y) * width + x)" using xy by (rule cell')
    also have "\<dots> = cw ! nat (x * height + y)" using cell [OF xy] by simp
    also have "\<dots> = cw ! (length cw - Suc k)" using k2 [symmetric] by simp
    also have "\<dots> = rev cw ! k" using k len len' by (simp add: rev_nth)
    finally show "dst' ! k = rev cw ! k" .
  qed
  with ccw cw cell' show ?thesis by blast
qed

theorem rot90ccw_cells_witness:
  "rot90ccw (map word_of_nat [0..<512]) 0 (replicate 512 0) 0 (32 * 16) 32 16
     = map_option rev (rot90cw (map word_of_nat [0..<512]) 0 (replicate 512 0) 0 (32 * 16) 32 16)
   \<and> map_option (\<lambda>dst'. dst' ! 511)
        (rot90ccw (map word_of_nat [0..<512]) 0 (replicate 512 0) 0 (32 * 16) 32 16)
     = Some ((map word_of_nat [0..<512] :: byte list) ! 480)"
proof -
  let ?src = "map word_of_nat [0..<512] :: byte list"
  let ?dst = "replicate 512 0 :: byte list"
  have h: "(0 :: int) < 32" "(0 :: int) < 16" "int (length ?src) = 32 * 16"
    "int (length ?dst) = 32 * 16"
    by simp_all
  from rot90ccw_cells [OF h] obtain dst' cw where
    ccw: "rot90ccw ?src 0 ?dst 0 (32 * 16) 32 16 = Some dst'"
    and cell: "\<And>x y. 0 \<le> x \<and> x < 32 \<and> 0 \<le> y \<and> y < 16 \<Longrightarrow>
            dst' ! nat ((32 - 1 - x) * 16 + (16 - 1 - y)) = ?src ! nat ((16 - 1 - y) * 32 + x)"
    and cw: "rot90cw ?src 0 ?dst 0 (32 * 16) 32 16 = Some cw"
    and mirror: "dst' = rev cw"
    by blast
  from cell [of 0 0] have "dst' ! 511 = ?src ! 480" by simp
  with ccw cw mirror show ?thesis by simp
qed

text \<open>
  C7: a quarter turn clockwise of a \<open>W\<close> by \<open>H\<close> greyscale buffer (\<open>rot90cw\<close> with
  width \<open>W\<close> and height \<open>H\<close>) followed by a quarter turn counter-clockwise of the
  result (\<open>rot90ccw\<close> with width \<open>H\<close> and height \<open>W\<close>) gives back the original
  buffer.  This holds for all positive \<open>W\<close> and \<open>H\<close>, the multiples of 16 among them.
\<close>

theorem rot90cw_then_rot90ccw:
  assumes "0 < W" and "0 < H"
    and "int (length src) = W * H" and "int (length tmp1) = W * H"
    and "int (length tmp2) = W * H"
  shows "\<exists>turned. rot90cw src 0 tmp1 0 (W * H) W H = Some turned
      \<and> rot90ccw turned 0 tmp2 0 (H * W) H W = Some src"
proof -
  have pre: "0 \<le> W" "0 \<le> H" "(0 :: int) \<le> 0" "0 + W * H \<le> int (length src)"
    "0 + W * H \<le> int (length tmp1)"
    using assms by simp_all
  from rot90cw_spec [OF pre(1,2) refl pre(3,4,3,5)]
  obtain turned where cw: "rot90cw src 0 tmp1 0 (W * H) W H = Some turned"
    and len1: "length turned = length tmp1"
    and cell1: "\<And>x y. 0 \<le> x \<Longrightarrow> x < W \<Longrightarrow> 0 \<le> y \<Longrightarrow> y < H \<Longrightarrow>
            turned ! nat (x * H + y) = src ! nat ((H - 1 - y) * W + x)"
    by auto
  have pre2: "0 + H * W \<le> int (length turned)" "0 + H * W \<le> int (length tmp2)"
    using assms len1 by (simp_all add: mult.commute)
  from rot90ccw_spec [OF pre(2,1) refl pre(3) pre2(1) pre(3) pre2(2)]
  obtain restored where ccw: "rot90ccw turned 0 tmp2 0 (H * W) H W = Some restored"
    and len2: "length restored = length tmp2"
    and cell2: "\<And>x y. 0 \<le> x \<Longrightarrow> x < H \<Longrightarrow> 0 \<le> y \<Longrightarrow> y < W \<Longrightarrow>
            restored ! nat ((H - 1 - x) * W + (W - 1 - y)) = turned ! nat ((W - 1 - y) * H + x)"
    by auto
  have "restored = src"
  proof (rule nth_equalityI)
    show "length restored = length src" using len2 assms by simp
  next
    fix k assume k: "k < length restored"
    with len2 assms have ki: "0 \<le> int k" "int k < H * W" by (simp_all add: mult.commute)
    from cell_decompose [OF assms(1) ki] obtain q r where
      qr: "0 \<le> q" "q < H" "0 \<le> r" "r < W" "int k = q * W + r"
      by blast
    define x where "x = H - 1 - q"
    define y where "y = W - 1 - r"
    have xy: "0 \<le> x" "x < H" "0 \<le> y" "y < W" using qr by (simp_all add: x_def y_def)
    have xy': "0 \<le> W - 1 - y" "W - 1 - y < W" using xy by simp_all
    have k1: "int k = (H - 1 - x) * W + (W - 1 - y)"
      using qr by (simp add: x_def y_def)
    have "restored ! k = restored ! nat ((H - 1 - x) * W + (W - 1 - y))"
      using k1 [symmetric] by simp
    also have "\<dots> = turned ! nat ((W - 1 - y) * H + x)" using xy by (rule cell2)
    also have "\<dots> = src ! nat ((H - 1 - x) * W + (W - 1 - y))"
      using xy' xy(1,2) by (rule cell1)
    also have "\<dots> = src ! k" using k1 [symmetric] by simp
    finally show "restored ! k = src ! k" .
  qed
  with cw ccw show ?thesis by blast
qed

theorem rot90cw_then_rot90ccw_witness:
  "rot90cw (map word_of_nat [0..<768]) 0 (replicate 768 0) 0 (48 * 16) 48 16
     \<bind> (\<lambda>turned. rot90ccw turned 0 (replicate 768 0) 0 (16 * 48) 16 48)
   = Some (map word_of_nat [0..<768])"
proof -
  let ?src = "map word_of_nat [0..<768] :: byte list"
  let ?tmp = "replicate 768 0 :: byte list"
  have h: "(0 :: int) < 48" "(0 :: int) < 16" "int (length ?src) = 48 * 16"
    "int (length ?tmp) = 48 * 16" "int (length ?tmp) = 48 * 16"
    by simp_all
  from rot90cw_then_rot90ccw [OF h] obtain turned where
    "rot90cw ?src 0 ?tmp 0 (48 * 16) 48 16 = Some turned"
    "rot90ccw turned 0 ?tmp 0 (16 * 48) 16 48 = Some ?src"
    by blast
  then show ?thesis by simp
qed

section \<open>The dispatcher: results\<close>

lemma rotate_map_default:
  assumes "is_c_int (rotate_data_cap_width cnt * rotate_data_cap_height cnt)"
    and "imgs_type cnt = VIDEO_PALETTE_YUV420P \<longrightarrow>
           is_c_int (rotate_data_cap_width cnt * rotate_data_cap_height cnt * 3)"
    and "rotate_data_degrees cnt \<notin> {90, 180, 270}"
  shows "rotate_map e cnt m = Some (- 1, cnt, m)"
  using assms by (simp add: rotate_map_def c_mul_def Let_def)

lemma rotate_map_turn_result:
  assumes "rotate_map e cnt m = Some (r, cnt', m')"
    and "rotate_data_degrees cnt \<in> {90, 180, 270}"
  shows "r = 0"
  using assms
  by (auto simp add: rotate_map_def Let_def split: bind_splits if_splits prod.splits)

lemma rotate_map_no_turn_result:
  assumes "rotate_map e cnt m = Some (r, cnt', m')"
    and "rotate_data_degrees cnt \<notin> {90, 180, 270}"
  shows "r = - 1 \<and> cnt' = cnt \<and> m' = m"
  using assms
  by (auto simp add: rotate_map_def Let_def split: bind_splits if_splits prod.splits)

text \<open>
  C1, as stated: for a state with angle 0, \<open>rotate_map\<close> returns success and leaves the
  frame buffer unchanged.  It does not: the angle 0 takes the \<open>default\<close> branch of the
  \<open>switch\<close> and the result is \<open>- 1\<close>.
\<close>

theorem rotate_map_angle_0_fails:
  "rotate_data_degrees (example_state 0 VIDEO_PALETTE_GREY 32 16 None) = 0
   \<and> rotate_map Little (example_state 0 VIDEO_PALETTE_GREY 32 16 None) (replicate 512 7)
     = Some (- 1, example_state 0 VIDEO_PALETTE_GREY 32 16 None, replicate 512 7)"
  by (simp add: rotate_map_def example_state_def c_arith_defs)

text \<open>
  C1, amended: \<open>rotate_map\<close> returns the error \<open>- 1\<close> exactly when the stored angle is
  outside 90, 180, 270, the angle 0 included, and it then leaves the frame buffer and
  the context as they are; for the angles 90, 180 and 270 every result is the success
  0.  The plane sizes are taken to fit into an \<open>int\<close>.
\<close>

theorem rotate_map_error_iff_no_turn:
  assumes "is_c_int (rotate_data_cap_width cnt * rotate_data_cap_height cnt)"
    and "imgs_type cnt = VIDEO_PALETTE_YUV420P \<longrightarrow>
           is_c_int (rotate_data_cap_width cnt * rotate_data_cap_height cnt * 3)"
  shows "(rotate_data_degrees cnt \<notin> {90, 180, 270} \<longrightarrow>
            rotate_map e cnt m = Some (- 1, cnt, m))
       \<and> (rotate_data_degrees cnt \<in> {90, 180, 270} \<longrightarrow>
            (\<forall>r cnt' m'. rotate_map e cnt m = Some (r, cnt', m') \<longrightarrow> r = 0))"
  using assms rotate_map_default [of cnt e m] rotate_map_turn_result [of e cnt m]
  by blast

theorem rotate_map_error_iff_no_turn_witness:
  "is_c_int (rotate_data_cap_width (example_state 0 VIDEO_PALETTE_YUV420P 32 16 None) *
             rotate_data_cap_height (example_state 0 VIDEO_PALETTE_YUV420P 32 16 None))
   \<and> is_c_int (rotate_data_cap_width (example_state 0 VIDEO_PALETTE_YUV420P 32 16 None) *
               rotate_data_cap_height (example_state 0 VIDEO_PALETTE_YUV420P 32 16 None) * 3)
   \<and> rotate_map Little (example_state 0 VIDEO_PALETTE_YUV420P 32 16 None) (replicate 768 7)
     = Some (- 1, example_state 0 VIDEO_PALETTE_YUV420P 32 16 None, replicate 768 7)
   \<and> rotate_map Little (example_state 180 VIDEO_PALETTE_GREY 4 2 None) [0, 1, 2, 3, 4, 5, 6, 7]
     = Some (0, example_state 180 VIDEO_PALETTE_GREY 4 2 None, [7, 6, 5, 4, 3, 2, 1, 0])"
proof -
  let ?c0 = "example_state 0 VIDEO_PALETTE_YUV420P 32 16 None"
  let ?c180 = "example_state 180 VIDEO_PALETTE_GREY 4 2 None"
  have a: "is_c_int (rotate_data_cap_width ?c0 * rotate_data_cap_height ?c0)"
    and b: "is_c_int (rotate_data_cap_width ?c0 * rotate_data_cap_height ?c0 * 3)"
    and d: "rotate_data_degrees ?c0 \<notin> {90, 180, 270}"
    by (simp_all add: example_state_def is_c_int_def INT_MIN_def INT_MAX_def)
  have a': "is_c_int (rotate_data_cap_width ?c180 * rotate_data_cap_height ?c180)"
    and b': "imgs_type ?c180 = VIDEO_PALETTE_YUV420P \<longrightarrow>
           is_c_int (rotate_data_cap_width ?c180 * rotate_data_cap_height ?c180 * 3)"
    and d': "rotate_data_degrees ?c180 \<in> {90, 180, 270}"
    by (simp_all add: example_state_def is_c_int_def INT_MIN_def INT_MAX_def)
  have run: "rotate_map Little ?c180 [0, 1, 2, 3, 4, 5, 6, 7]
      = Some (0, ?c180, [7, 6, 5, 4, 3, 2, 1, 0])"
    by code_simp
  from rotate_map_error_iff_no_turn [of ?c0 Little "replicate 768 7"] a b d
  have "rotate_map Little ?c0 (replicate 768 7) = Some (- 1, ?c0, replicate 768 7)"
    by blast
  moreover from rotate_map_error_iff_no_turn [OF a' b', of Little "[0, 1, 2, 3, 4, 5, 6, 7]"] d'
  have "\<forall>r cnt' m'. rotate_map Little ?c180 [0, 1, 2, 3, 4, 5, 6, 7] = Some (r, cnt', m')
          \<longrightarrow> r = 0"
    by blast
  ultimately show ?thesis using a b run by simp
qed

text \<open>
  C10: whenever \<open>rotate_map\<close> returns the failure \<open>- 1\<close>, the frame buffer and the
  scratch buffer are as they were: nothing has been written.
\<close>

theorem rotate_map_failure_writes_nothing:
  assumes "rotate_map e cnt m = Some (r, cnt', m')" and "r = - 1"
  shows "m' = m \<and> rotate_data_temp_buf cnt' = rotate_data_temp_buf cnt"
proof (cases "rotate_data_degrees cnt \<in> {90, 180, 270}")
  case True
  with assms rotate_map_turn_result [of e cnt m r cnt' m'] show ?thesis by simp
next
  case False
  with assms rotate_map_no_turn_result [of e cnt m r cnt' m'] show ?thesis by simp
qed

theorem rotate_map_failure_writes_nothing_witness:
  "rotate_map Big (example_state 45 VIDEO_PALETTE_GREY 4 2 (Some [9, 9, 9, 9, 9, 9, 9, 9]))
      [0, 1, 2, 3, 4, 5, 6, 7]
     = Some (- 1, example_state 45 VIDEO_PALETTE_GREY 4 2 (Some [9, 9, 9, 9, 9, 9, 9, 9]),
             [0, 1, 2, 3, 4, 5, 6, 7])
   \<and> rotate_data_temp_buf
       (example_state 45 VIDEO_PALETTE_GREY 4 2 (Some [9, 9, 9, 9, 9, 9, 9, 9]))
     = Some [9, 9, 9, 9, 9, 9, 9, 9]"
proof -
  let ?c = "example_state 45 VIDEO_PALETTE_GREY 4 2 (Some [9, 9, 9, 9, 9, 9, 9, 9])"
  have run: "rotate_map Big ?c [0, 1, 2, 3, 4, 5, 6, 7] = Some (- 1, ?c, [0, 1, 2, 3, 4, 5, 6, 7])"
    by (simp add: rotate_map_def example_state_def c_arith_defs)
  from rotate_map_failure_writes_nothing [OF run refl] run show ?thesis
    by (simp add: example_state_def)
qed

end
